theory Spec2Isabelle
  imports Complex_Main "HOL-Library.Word" "HOL-Library.Multiset" "HOL-Library.Sublist"
begin

section \<open>Go strings and the library functions the runner calls on them\<close>

text \<open>
  A Go string is a sequence of bytes; \<^typ>\<open>string\<close> is a list of 8-bit characters, so
  the two agree byte for byte. The functions of package \<open>strings\<close> that the runner
  uses are written out here after their documented behaviour.
\<close>

text \<open>
  \<open>strings.ReplaceAll(s, old, new)\<close>: the non-overlapping occurrences of \<open>old\<close> are
  replaced from left to right, and replaced text is not scanned again. The runner never
  passes an empty \<open>old\<close>; for an empty \<open>old\<close> this function leaves \<open>s\<close> as it is.
\<close>

function ReplaceAll :: "string \<Rightarrow> string \<Rightarrow> string \<Rightarrow> string" where
  "ReplaceAll [] old new = []"
| "ReplaceAll (c # cs) old new =
     (if old \<noteq> [] \<and> prefix old (c # cs)
      then new @ ReplaceAll (drop (length old) (c # cs)) old new
      else c # ReplaceAll cs old new)"
  by pat_completeness auto
termination
  by (relation "measure (\<lambda>(s, old, new). length s)") (auto simp: neq_Nil_conv)

text \<open>\<open>strings.Contains(s, substr)\<close>: \<open>substr\<close> occurs in \<open>s\<close> as a contiguous run.\<close>

definition Contains :: "string \<Rightarrow> string \<Rightarrow> bool" where
  "Contains s substr = sublist substr s"

text \<open>\<open>strings.TrimSuffix(s, suffix)\<close>.\<close>

definition TrimSuffix :: "string \<Rightarrow> string \<Rightarrow> string" where
  "TrimSuffix s suf = (if suffix suf s then take (length s - length suf) s else s)"

text \<open>
  \<open>strings.TrimSpace\<close> removes the leading and the trailing white space "as defined by
  Unicode". A rune is white space for \<open>unicode.IsSpace\<close> exactly when it is one of
  U+0009..U+000D, U+0020, U+0085, U+00A0, U+1680, U+2000..U+200A, U+2028, U+2029, U+202F,
  U+205F, U+3000. The UTF-8 decoder accepts only the shortest encoding of a rune and
  turns every invalid byte into U+FFFD (not white space), so a string starts (ends) with
  a white-space rune exactly when it starts (ends) with one of the byte sequences below.
\<close>

definition spaceRunes :: "string list" where
  "spaceRunes =
     [[CHR 0x09], [CHR 0x0A], [CHR 0x0B], [CHR 0x0C], [CHR 0x0D], [CHR 0x20],
      [CHR 0xC2, CHR 0x85], [CHR 0xC2, CHR 0xA0],
      [CHR 0xE1, CHR 0x9A, CHR 0x80],
      [CHR 0xE2, CHR 0x80, CHR 0x80], [CHR 0xE2, CHR 0x80, CHR 0x81],
      [CHR 0xE2, CHR 0x80, CHR 0x82], [CHR 0xE2, CHR 0x80, CHR 0x83],
      [CHR 0xE2, CHR 0x80, CHR 0x84], [CHR 0xE2, CHR 0x80, CHR 0x85],
      [CHR 0xE2, CHR 0x80, CHR 0x86], [CHR 0xE2, CHR 0x80, CHR 0x87],
      [CHR 0xE2, CHR 0x80, CHR 0x88], [CHR 0xE2, CHR 0x80, CHR 0x89],
      [CHR 0xE2, CHR 0x80, CHR 0x8A],
      [CHR 0xE2, CHR 0x80, CHR 0xA8], [CHR 0xE2, CHR 0x80, CHR 0xA9],
      [CHR 0xE2, CHR 0x80, CHR 0xAF],
      [CHR 0xE2, CHR 0x81, CHR 0x9F],
      [CHR 0xE3, CHR 0x80, CHR 0x80]]"

text \<open>The length of the white-space rune a string starts with (0 when it starts with none).\<close>

definition leadingSpace :: "string list \<Rightarrow> string \<Rightarrow> nat" where
  "leadingSpace runes s = (case List.find (\<lambda>e. prefix e s) runes of None \<Rightarrow> 0 | Some e \<Rightarrow> length e)"

lemma leadingSpace_le: "leadingSpace runes s \<le> length s"
  by (auto simp: leadingSpace_def find_Some_iff split: option.splits dest: prefix_length_le)

function TrimLeftRunes :: "string list \<Rightarrow> string \<Rightarrow> string" where
  "TrimLeftRunes runes s =
     (if leadingSpace runes s = 0 then s else TrimLeftRunes runes (drop (leadingSpace runes s) s))"
  by pat_completeness auto
termination
proof (relation "measure (\<lambda>(runes, s). length s)")
  fix runes :: "string list" and s :: string
  assume "leadingSpace runes s \<noteq> 0"
  then show "((runes, drop (leadingSpace runes s) s), (runes, s)) \<in> measure (\<lambda>(runes, s). length s)"
    using leadingSpace_le [of runes s] by auto
qed simp

declare TrimLeftRunes.simps [simp del]

definition TrimLeftSpace :: "string \<Rightarrow> string" where
  "TrimLeftSpace s = TrimLeftRunes spaceRunes s"

definition TrimRightSpace :: "string \<Rightarrow> string" where
  "TrimRightSpace s = rev (TrimLeftRunes (map rev spaceRunes) (rev s))"

definition TrimSpace :: "string \<Rightarrow> string" where
  "TrimSpace s = TrimRightSpace (TrimLeftSpace s)"

section \<open>HTML snapshots: normalisation\<close>

text \<open>
  The loop \<open>for strings.Contains(html, "  ") { html = strings.ReplaceAll(html, "  ", " ") }\<close>
  of \<open>normalizeHTML\<close>. Every round shortens the string, so the loop ends.
\<close>

lemma ReplaceAll_length_le:
  "length new \<le> length old \<Longrightarrow> length (ReplaceAll s old new) \<le> length s"
proof (induction s old new rule: ReplaceAll.induct)
  case (1 old new)
  then show ?case by simp
next
  case (2 c cs old new)
  show ?case
  proof (cases "old \<noteq> [] \<and> prefix old (c # cs)")
    case True
    then have "length old \<le> length (c # cs)" by (auto dest: prefix_length_le)
    moreover have "length (ReplaceAll (drop (length old) (c # cs)) old new)
        \<le> length (drop (length old) (c # cs))"
      using 2 True by simp
    ultimately show ?thesis using True 2(3) by simp
  next
    case False
    then show ?thesis using 2 by auto
  qed
qed

lemma ReplaceAll_length_less:
  "length new < length old \<Longrightarrow> sublist old s \<Longrightarrow> length (ReplaceAll s old new) < length s"
proof (induction s old new rule: ReplaceAll.induct)
  case (1 old new)
  then show ?case by simp
next
  case (2 c cs old new)
  have ne: "old \<noteq> []" using 2(3) by auto
  show ?case
  proof (cases "prefix old (c # cs)")
    case True
    then have "length old \<le> length (c # cs)" by (auto dest: prefix_length_le)
    moreover have "length (ReplaceAll (drop (length old) (c # cs)) old new)
        \<le> length (drop (length old) (c # cs))"
      using 2(3) by (intro ReplaceAll_length_le) simp
    ultimately show ?thesis using True ne 2(3) by simp
  next
    case False
    then have "sublist old cs" using 2(4) by (simp add: sublist_Cons_right)
    then show ?thesis using 2 False by simp
  qed
qed

function collapseSpaces :: "string \<Rightarrow> string" where
  "collapseSpaces html =
     (if Contains html ''  '' then collapseSpaces (ReplaceAll html ''  '' '' '') else html)"
  by pat_completeness auto
termination
  by (relation "measure length") (auto simp: Contains_def intro!: ReplaceAll_length_less)

declare collapseSpaces.simps [simp del]

definition normalizeHTML :: "string \<Rightarrow> string" where
  "normalizeHTML html =
     (let html = ReplaceAll html [CHR 0x0A] '' '';
          html = ReplaceAll html [CHR 0x0D] '' '';
          html = ReplaceAll html [CHR 0x09] '' '';
          html = collapseSpaces html;
          html = ReplaceAll html ''> <'' ''><'';
          html = ReplaceAll html ''> '' ''>'';
          html = ReplaceAll html '' <'' ''<''
      in TrimSpace html)"

definition compareSnapshots :: "string \<Rightarrow> string \<Rightarrow> bool" where
  "compareSnapshots baseline current = (normalizeHTML baseline = normalizeHTML current)"

text \<open>\<open>escapeHTML\<close> and \<open>generateHTMLDiff\<close>: the page written as \<open>.diff.html\<close>.\<close>

definition escapeHTML :: "string \<Rightarrow> string" where
  "escapeHTML s =
     (let s = ReplaceAll s ''&'' ''&amp;'';
          s = ReplaceAll s ''<'' ''&lt;'';
          s = ReplaceAll s ''>'' ''&gt;'';
          s = ReplaceAll s [CHR 0x22] ''&quot;'';
          s = ReplaceAll s [CHR 0x27] ''&#39;''
      in s)"

definition diffPageHead :: "string list" where
  "diffPageHead =
     [''<!DOCTYPE html>'',
      ''<html>'',
      ''<head>'',
      ''    <title>Snapshot Diff</title>'',
      ''    <style>'',
      ''        body { font-family: monospace; white-space: pre-wrap; }'',
      ''        .added { background-color: #90EE90; }'',
      ''        .removed { background-color: #FFB6C1; }'',
      ''        .header { font-weight: bold; margin: 20px 0 10px 0; }'',
      ''    </style>'',
      ''</head>'',
      ''<body>'',
      ''    <div class=\"header\">Snapshot Diff</div>'',
      ''    <div class=\"header\">Expected:</div>'']"

definition generateHTMLDiff :: "string \<Rightarrow> string \<Rightarrow> string" where
  "generateHTMLDiff baseline current =
     concat (map (\<lambda>l. l @ [CHR 0x0A]) diffPageHead)
     @ ''    <div class=\"removed\">'' @ escapeHTML (normalizeHTML baseline) @ ''</div>'' @ [CHR 0x0A]
     @ ''    <div class=\"header\">Actual:</div>'' @ [CHR 0x0A]
     @ ''    <div class=\"added\">'' @ escapeHTML (normalizeHTML current) @ ''</div>'' @ [CHR 0x0A]
     @ ''</body>'' @ [CHR 0x0A]
     @ ''</html>''"

section \<open>The data model of the runner\<close>

text \<open>
  Go's \<open>error\<close> values are built with \<open>fmt.Errorf\<close>; here every place that builds
  one is a constructor, carrying what the message is formatted from. Errors that come
  from the browser, the file system or the PNG codec are carried as their text.
\<close>

datatype error =
    BrowserNotStarted
  | InitFailed string
  | ConsoleErrorsDetected nat
  | UnknownAction string
  | BrowserError string
  | ScreenshotDirFailed string
  | ScreenshotCaptureFailed string
  | ScreenshotReadFailed string
  | ScreenshotCompareFailed string
  | ScreenshotDiffers real real string
  | ScreenshotSaveFailed string
  | SnapshotDirFailed string
  | SnapshotCaptureFailed string
  | SnapshotReadFailed string
  | SnapshotDiffers string
  | SnapshotSaveFailed string

record ConsoleError =
  Message :: string
  Type :: string
  Timestamp :: int
  URL :: string

record Config =
  Headless :: bool
  Timeout :: int
  FailOnConsoleError :: bool
  ErrorFilter :: "(ConsoleError \<Rightarrow> bool) option"
  ScreenshotDir :: string
  UpdateScreenshots :: bool
  ScreenshotThreshold :: real
  SnapshotDir :: string
  UpdateSnapshots :: bool

record Step =
  Action :: string
  Target :: string
  Value :: string

record Test =
  Name :: string
  Steps :: "Step list"

record TestResult =
  rName :: string
  Passed :: bool
  Error :: "error option"
  Duration :: int
  Errors :: "ConsoleError list"

text \<open>
  The file system, as far as the runner uses it: the regular files with their contents,
  the path join of the platform (\<open>filepath.Join\<close>), and for every call that can fail
  the paths on which it fails and the error it then returns. Directories are not
  tracked: \<open>os.MkdirAll\<close> only succeeds or fails. A write that fails says how far it
  got: \<open>None\<close> when the file could not be opened, \<open>Some n\<close> when it was opened
  (created or truncated) and \<open>n\<close> bytes reached it before the error.
\<close>

record filesystem =
  files :: "string \<rightharpoonup> string"
  Join :: "string \<Rightarrow> string \<Rightarrow> string"
  mkdirErr :: "string \<rightharpoonup> string"
  statErr :: "string \<Rightarrow> bool"
  readErr :: "string \<rightharpoonup> string"
  writeErr :: "string \<rightharpoonup> string \<times> nat option"

definition os_MkdirAll :: "string \<Rightarrow> filesystem \<Rightarrow> string option" where
  "os_MkdirAll p fs = mkdirErr fs p"

text \<open>\<open>os.Stat(path)\<close> as the runner uses it: only whether the error is \<open>nil\<close>.\<close>

definition os_Stat :: "string \<Rightarrow> filesystem \<Rightarrow> bool" where
  "os_Stat p fs \<longleftrightarrow> files fs p \<noteq> None \<and> \<not> statErr fs p"

definition os_ReadFile :: "string \<Rightarrow> filesystem \<Rightarrow> string + string" where
  "os_ReadFile p fs =
     (case readErr fs p of
        Some e \<Rightarrow> Inl e
      | None \<Rightarrow> (case files fs p of None \<Rightarrow> Inl ''no such file or directory'' | Some d \<Rightarrow> Inr d))"

text \<open>
  \<open>os.WriteFile\<close> opens the file with \<open>O_WRONLY|O_CREATE|O_TRUNC\<close> and then writes:
  a failure after the open leaves the file empty or cut short.
\<close>

definition os_WriteFile :: "string \<Rightarrow> string \<Rightarrow> filesystem \<Rightarrow> string option \<times> filesystem" where
  "os_WriteFile p d fs =
     (case writeErr fs p of
        Some (e, None) \<Rightarrow> (Some e, fs)
      | Some (e, Some n) \<Rightarrow> (Some e, fs\<lparr>files := (files fs)(p \<mapsto> take n d)\<rparr>)
      | None \<Rightarrow> (None, fs\<lparr>files := (files fs)(p \<mapsto> d)\<rparr>))"

text \<open>
  The \<open>Runner\<close> struct. \<open>allocStarted\<close> stands for \<open>allocCtx != nil\<close>. The two
  counters are Go maps from test name to \<open>int\<close>; a missing key reads as 0. The field
  \<open>disk\<close> is not a Go field: it is the file system the runner reads and writes, kept
  in the same state so that one value is threaded through the calls.
\<close>

record Runner =
  allocStarted :: bool
  config :: Config
  tests :: "Test list"
  results :: "TestResult list"
  screenshotCounter :: "string \<rightharpoonup> int"
  snapshotCounter :: "string \<rightharpoonup> int"
  disk :: filesystem

definition defaultConfig :: Config where
  "defaultConfig =
     \<lparr>Headless = True, Timeout = 10 * 1000000000, FailOnConsoleError = True,
      ErrorFilter = None, ScreenshotDir = ''__screenshots__'', UpdateScreenshots = False,
      ScreenshotThreshold = 0, SnapshotDir = ''__snapshots__'', UpdateSnapshots = False\<rparr>"

definition NewRunner :: "Config option \<Rightarrow> filesystem \<Rightarrow> Runner" where
  "NewRunner cfg fs =
     (let config = (case cfg of None \<Rightarrow> defaultConfig | Some c \<Rightarrow> c);
          config = (if ScreenshotDir config = [] then config\<lparr>ScreenshotDir := ''__screenshots__''\<rparr>
                    else config);
          config = (if SnapshotDir config = [] then config\<lparr>SnapshotDir := ''__snapshots__''\<rparr>
                    else config)
      in \<lparr>allocStarted = False, config = config, tests = [], results = [],
          screenshotCounter = Map.empty, snapshotCounter = Map.empty, disk = fs\<rparr>)"

definition Start :: "Runner \<Rightarrow> Runner" where
  "Start r = r\<lparr>allocStarted := True\<rparr>"

definition AddTest :: "Test \<Rightarrow> Runner \<Rightarrow> Runner" where
  "AddTest test r = r\<lparr>tests := tests r @ [test]\<rparr>"

section \<open>File names of screenshots and snapshots\<close>

text \<open>
  Go's \<open>int\<close> is 64 bits wide here: \<open>counter++\<close> wraps around from \<open>2^63 - 1\<close> to
  \<open>- 2^63\<close>.
\<close>

definition wrap64 :: "int \<Rightarrow> int" where
  "wrap64 i = (i + 2 ^ 63) mod 2 ^ 64 - 2 ^ 63"

definition lookup0 :: "(string \<rightharpoonup> int) \<Rightarrow> string \<Rightarrow> int" where
  "lookup0 m k = (case m k of None \<Rightarrow> 0 | Some v \<Rightarrow> v)"

text \<open>The verb \<open>%d\<close> of \<open>fmt.Sprintf\<close>.\<close>

function digits :: "nat \<Rightarrow> string" where
  "digits n = (if n < 10 then [char_of (48 + n)] else digits (n div 10) @ [char_of (48 + n mod 10)])"
  by pat_completeness auto
termination
  by (relation "measure id") auto

declare digits.simps [simp del]

definition showInt :: "int \<Rightarrow> string" where
  "showInt i = (if i < 0 then CHR ''-'' # digits (nat (- i)) else digits (nat i))"

definition safeName :: "string \<Rightarrow> string" where
  "safeName testName =
     (let safeTestName = ReplaceAll testName '' '' ''_'';
          safeTestName = ReplaceAll safeTestName ''/'' ''_'';
          safeTestName = ReplaceAll safeTestName [CHR 0x5C] ''_''
      in safeTestName)"

text \<open>
  The first block of \<open>takeScreenshot\<close>: the file name the step works on, and the
  runner with its counter moved when the name was derived.
\<close>

definition screenshotFilename :: "string \<Rightarrow> string \<Rightarrow> Runner \<Rightarrow> string \<times> Runner" where
  "screenshotFilename filename testName r =
     (if filename = [] then
        (let safeTestName = safeName testName;
             counter = wrap64 (lookup0 (screenshotCounter r) testName + 1);
             r = r\<lparr>screenshotCounter := (screenshotCounter r)(testName \<mapsto> counter)\<rparr>
         in if counter = 1 then (safeTestName @ ''.png'', r)
            else (safeTestName @ ''_'' @ showInt counter @ ''.png'', r))
      else (filename, r))"

text \<open>The first block of \<open>takeSnapshot\<close>.\<close>

definition snapshotFilename :: "string \<Rightarrow> string \<Rightarrow> Runner \<Rightarrow> string \<times> Runner" where
  "snapshotFilename filename testName r =
     (if filename = [] then
        (let safeTestName = safeName testName;
             counter = wrap64 (lookup0 (snapshotCounter r) testName + 1);
             r = r\<lparr>snapshotCounter := (snapshotCounter r)(testName \<mapsto> counter)\<rparr>
         in if counter = 1 then (safeTestName @ ''.html'', r)
            else (safeTestName @ ''_'' @ showInt counter @ ''.html'', r))
      else (filename, r))"

section \<open>Comparing screenshots\<close>

text \<open>
  A decoded image (\<open>image.Image\<close>): its bounds and the colour at every point. A
  colour is what \<open>color.Color.RGBA()\<close> returns, four \<open>uint32\<close> values. Coordinates
  are Go \<open>int\<close>s; the bounds of a decoded PNG fit 32 bits, so the 64-bit arithmetic on
  them never wraps and is written on \<^typ>\<open>int\<close>.
\<close>

type_synonym color = "32 word \<times> 32 word \<times> 32 word \<times> 32 word"

record Rectangle =
  Min_X :: int
  Min_Y :: int
  Max_X :: int
  Max_Y :: int

record image =
  Bounds :: Rectangle
  At :: "int \<Rightarrow> int \<Rightarrow> color"

definition Dx :: "Rectangle \<Rightarrow> int" where
  "Dx r = Max_X r - Min_X r"

definition Dy :: "Rectangle \<Rightarrow> int" where
  "Dy r = Max_Y r - Min_Y r"

text \<open>The diff image: an \<open>image.RGBA\<close>, its rows from \<open>Min.Y\<close> on, four bytes a pixel.\<close>

type_synonym rgba = "8 word \<times> 8 word \<times> 8 word \<times> 8 word"

record diff_image =
  dBounds :: Rectangle
  dRows :: "rgba list list"

definition colorsEqual :: "color \<Rightarrow> color \<Rightarrow> bool" where
  "colorsEqual c1 c2 =
     (case c1 of (r1, g1, b1, a1) \<Rightarrow> case c2 of (r2, g2, b2, a2) \<Rightarrow>
        r1 = r2 \<and> g1 = g2 \<and> b1 = b2 \<and> a1 = a2)"

text \<open>
  The sampling pass: every 10th pixel of every 10th row, until the first pair of pixels
  that differ. \<open>sampleRow\<close> is the inner loop over \<open>x\<close>, \<open>sampleRows\<close> the outer
  loop over \<open>y\<close>; each returns \<open>needsDiff\<close>.
\<close>

definition sampleStep :: int where
  "sampleStep = 10"

function sampleRow :: "image \<Rightarrow> image \<Rightarrow> int \<Rightarrow> int \<Rightarrow> bool" where
  "sampleRow baselineImg currentImg y x =
     (if x < Max_X (Bounds baselineImg) then
        (if \<not> colorsEqual (At baselineImg x y) (At currentImg x y) then True
         else sampleRow baselineImg currentImg y (x + sampleStep))
      else False)"
  by pat_completeness auto
termination
  by (relation "measure (\<lambda>(b, c, y, x). nat (Max_X (Bounds b) - x))")
     (auto simp: sampleStep_def)

declare sampleRow.simps [simp del]

function sampleRows :: "image \<Rightarrow> image \<Rightarrow> int \<Rightarrow> bool" where
  "sampleRows baselineImg currentImg y =
     (if y < Max_Y (Bounds baselineImg) then
        (if sampleRow baselineImg currentImg y (Min_X (Bounds baselineImg)) then True
         else sampleRows baselineImg currentImg (y + sampleStep))
      else False)"
  by pat_completeness auto
termination
  by (relation "measure (\<lambda>(b, c, y). nat (Max_Y (Bounds b) - y))")
     (auto simp: sampleStep_def)

declare sampleRows.simps [simp del]

text \<open>
  The full pass. A pixel of the diff image is red where the two images differ, and the
  grey \<open>uint8((r1 + g1 + b1) / 3 / 256)\<close> of the baseline at alpha 128 where they agree.
\<close>

definition diffPixel :: "color \<Rightarrow> color \<Rightarrow> rgba" where
  "diffPixel c1 c2 =
     (if \<not> colorsEqual c1 c2 then (255, 0, 0, 255)
      else (case c1 of (r1, g1, b1, a1) \<Rightarrow>
              (let gray = (ucast ((r1 + g1 + b1) div 3 div 256) :: 8 word)
               in (gray, gray, gray, 128))))"

text \<open>
  One worker of the full pass, on the rows \<open>startY \<le> y < endY\<close>: its \<open>localDiff\<close> and
  the rows of the diff image it has set.
\<close>

definition compareBand :: "image \<Rightarrow> image \<Rightarrow> int \<Rightarrow> int \<Rightarrow> nat \<times> rgba list list" where
  "compareBand baselineImg currentImg startY endY =
     (let xs = [Min_X (Bounds baselineImg) .. Max_X (Bounds baselineImg) - 1];
          ys = [startY .. endY - 1]
      in (sum_list (map (\<lambda>y. length (filter (\<lambda>x. \<not> colorsEqual (At baselineImg x y) (At currentImg x y)) xs)) ys),
          map (\<lambda>y. map (\<lambda>x. diffPixel (At baselineImg x y) (At currentImg x y)) xs) ys))"

definition numWorkers :: nat where
  "numWorkers = 4"

text \<open>
  The four workers take bands of \<open>rowsPerWorker\<close> rows, the last one up to \<open>Max.Y\<close>.
  They write disjoint rows of the diff image and add their counts under a mutex, so
  the order in which they run does not show in the result: it is the sum of the counts
  and the rows of the bands one after the other.
\<close>

definition bandOf :: "Rectangle \<Rightarrow> nat \<Rightarrow> int \<times> int" where
  "bandOf bounds w =
     (let rowsPerWorker = Dy bounds div int numWorkers;
          startY = Min_Y bounds + int w * rowsPerWorker;
          endY = (if w = numWorkers - 1 then Max_Y bounds else startY + rowsPerWorker)
      in (startY, endY))"

definition fullPass :: "image \<Rightarrow> image \<Rightarrow> nat \<times> diff_image" where
  "fullPass baselineImg currentImg =
     (let bounds = Bounds baselineImg;
          bands = map (\<lambda>w. case bandOf bounds w of (startY, endY) \<Rightarrow>
                          compareBand baselineImg currentImg startY endY) [0 ..< numWorkers]
      in (sum_list (map fst bands),
          \<lparr>dBounds = bounds, dRows = concat (map snd bands)\<rparr>))"

text \<open>
  What the runner calls outside its own code: \<open>image/png\<close> and the browser behind
  \<open>chromedp\<close>. \<open>'b\<close> is the state of one browser session. Every browser call returns
  the console events that reached the listener of the session while it ran.
\<close>

record console_event =
  ev_type :: string
  ev_args :: "string option list"
  ev_now :: int
  ev_location :: string

record 'b library =
  png_Decode :: "string \<Rightarrow> string + image"
  png_Encode :: "diff_image \<Rightarrow> string + string"
  NewContext :: "'b"
  Now :: "'b \<Rightarrow> int"
  NavigateBlank :: "'b \<Rightarrow> string option \<times> 'b"
  BrowserAction :: "Step \<Rightarrow> 'b \<Rightarrow> error option \<times> console_event list \<times> 'b"
  FullScreenshot :: "'b \<Rightarrow> (string + string) \<times> console_event list \<times> 'b"
  OuterHTML :: "'b \<Rightarrow> (string + string) \<times> console_event list \<times> 'b"

text \<open>
  \<open>compareImages\<close> returns the difference and the encoded diff image (\<open>None\<close> for
  \<open>nil\<close>), or the error of the codec. The difference is a \<open>float64\<close> in the code; the
  values 0 and 1 are exact there, and the quotient of the two pixel counts is written
  as the real quotient.
\<close>

definition compareImages :: "'b library \<Rightarrow> string \<Rightarrow> string \<Rightarrow> string + (real \<times> string option)" where
  "compareImages lib baseline current =
     (case png_Decode lib baseline of
        Inl err \<Rightarrow> Inl err
      | Inr baselineImg \<Rightarrow>
     (case png_Decode lib current of
        Inl err \<Rightarrow> Inl err
      | Inr currentImg \<Rightarrow>
        if baseline = current then Inr (0, None)
        else if Bounds baselineImg \<noteq> Bounds currentImg then Inr (1, None)
        else
          (let bounds = Bounds baselineImg;
               totalPixels = Dx bounds * Dy bounds;
               needsDiff = sampleRows baselineImg currentImg (Min_Y bounds)
           in if \<not> needsDiff then Inr (0, None)
              else (case fullPass baselineImg currentImg of (differentPixels, diffImg) \<Rightarrow>
                     (case png_Encode lib diffImg of
                        Inl err \<Rightarrow> Inl err
                      | Inr diffBuf \<Rightarrow>
                          Inr (real differentPixels / real_of_int totalPixels, Some diffBuf))))))"

section \<open>The screenshot and the snapshot step\<close>

text \<open>
  A step returns its error (\<open>None\<close> for \<open>nil\<close>), the console events of the browser
  calls it made, the session and the runner. The two \<open>os.WriteFile\<close> calls of the
  mismatch branch drop their error, as the code does.
\<close>

definition takeScreenshot ::
  "'b library \<Rightarrow> string \<Rightarrow> string \<Rightarrow> 'b \<Rightarrow> Runner \<Rightarrow> error option \<times> console_event list \<times> 'b \<times> Runner" where
  "takeScreenshot lib filename0 testName b r0 =
     (case screenshotFilename filename0 testName r0 of (filename, r) \<Rightarrow>
      case os_MkdirAll (ScreenshotDir (config r)) (disk r) of
        Some err \<Rightarrow> (Some (ScreenshotDirFailed err), [], b, r)
      | None \<Rightarrow>
     (case FullScreenshot lib b of
        (Inl err, evs, b') \<Rightarrow> (Some (ScreenshotCaptureFailed err), evs, b', r)
      | (Inr screenshot, evs, b') \<Rightarrow>
        (let path = Join (disk r) (ScreenshotDir (config r)) filename in
         if os_Stat path (disk r) then
           (case os_ReadFile path (disk r) of
              Inl err \<Rightarrow> (Some (ScreenshotReadFailed err), evs, b', r)
            | Inr baselineData \<Rightarrow>
             (case compareImages lib baselineData screenshot of
                Inl err \<Rightarrow> (Some (ScreenshotCompareFailed err), evs, b', r)
              | Inr (diff, diffImage) \<Rightarrow>
                  if diff > ScreenshotThreshold (config r) then
                    (let actualPath = TrimSuffix path ''.png'' @ ''.actual.png'';
                         fs1 = snd (os_WriteFile actualPath screenshot (disk r));
                         fs2 = (case diffImage of
                                  None \<Rightarrow> fs1
                                | Some d \<Rightarrow>
                                    (let diffPath = TrimSuffix path ''.png'' @ ''.diff.png''
                                     in snd (os_WriteFile diffPath d fs1)))
                     in (Some (ScreenshotDiffers (diff * 100) (ScreenshotThreshold (config r) * 100) path),
                         evs, b', r\<lparr>disk := fs2\<rparr>))
                  else (None, evs, b', r)))
         else
           (case os_WriteFile path screenshot (disk r) of
              (Some err, fs') \<Rightarrow> (Some (ScreenshotSaveFailed err), evs, b', r\<lparr>disk := fs'\<rparr>)
            | (None, fs') \<Rightarrow> (None, evs, b', r\<lparr>disk := fs'\<rparr>)))))"

definition takeSnapshot ::
  "'b library \<Rightarrow> string \<Rightarrow> string \<Rightarrow> 'b \<Rightarrow> Runner \<Rightarrow> error option \<times> console_event list \<times> 'b \<times> Runner" where
  "takeSnapshot lib filename0 testName b r0 =
     (case snapshotFilename filename0 testName r0 of (filename, r) \<Rightarrow>
      case os_MkdirAll (SnapshotDir (config r)) (disk r) of
        Some err \<Rightarrow> (Some (SnapshotDirFailed err), [], b, r)
      | None \<Rightarrow>
     (case OuterHTML lib b of
        (Inl err, evs, b') \<Rightarrow> (Some (SnapshotCaptureFailed err), evs, b', r)
      | (Inr html, evs, b') \<Rightarrow>
        (let path = Join (disk r) (SnapshotDir (config r)) filename in
         if os_Stat path (disk r) then
           (case os_ReadFile path (disk r) of
              Inl err \<Rightarrow> (Some (SnapshotReadFailed err), evs, b', r)
            | Inr baselineData \<Rightarrow>
                if \<not> compareSnapshots baselineData html then
                  (let actualPath = TrimSuffix path ''.html'' @ ''.actual.html'';
                       fs1 = snd (os_WriteFile actualPath html (disk r));
                       diffHTML = generateHTMLDiff baselineData html;
                       diffPath = TrimSuffix path ''.html'' @ ''.diff.html'';
                       fs2 = snd (os_WriteFile diffPath diffHTML fs1)
                   in (Some (SnapshotDiffers path), evs, b', r\<lparr>disk := fs2\<rparr>))
                else (None, evs, b', r))
         else
           (case os_WriteFile path html (disk r) of
              (Some err, fs') \<Rightarrow> (Some (SnapshotSaveFailed err), evs, b', r\<lparr>disk := fs'\<rparr>)
            | (None, fs') \<Rightarrow> (None, evs, b', r\<lparr>disk := fs'\<rparr>)))))"

section \<open>Steps and tests\<close>

text \<open>
  The actions of \<open>executeStep\<close> that talk to the browser only (they run protocol calls
  and build their error from what comes back) are one operation of the library,
  \<open>BrowserAction\<close>. The screenshot step, the snapshot step and the default case are
  written out.
\<close>

definition browserActions :: "string list" where
  "browserActions =
     [''navigate'', ''click'', ''type'', ''wait_for'', ''assert_text'',
      ''assert_element_exists'', ''assert_element_not_exists'', ''assert_text_contains'',
      ''assert_url'', ''assert_title'', ''assert_attribute'', ''wait_for_text'',
      ''wait_for_url'', ''select'', ''check'', ''uncheck'', ''hover'', ''assert_text_visible'']"

definition executeStep ::
  "'b library \<Rightarrow> Step \<Rightarrow> string \<Rightarrow> 'b \<Rightarrow> Runner \<Rightarrow> error option \<times> console_event list \<times> 'b \<times> Runner" where
  "executeStep lib step testName b r =
     (if Action step = ''screenshot'' then takeScreenshot lib (Target step) testName b r
      else if Action step = ''snapshot'' then takeSnapshot lib (Target step) testName b r
      else if Action step \<in> set browserActions then
        (case BrowserAction lib step b of (err, evs, b') \<Rightarrow> (err, evs, b', r))
      else (Some (UnknownAction (Action step)), [], b, r))"

text \<open>
  The console listener that \<open>runTest\<close> installs: an event of type \<open>error\<close> becomes a
  \<open>ConsoleError\<close>, appended to the errors of the result unless the filter of the
  configuration suppresses it.
\<close>

definition consoleListener :: "Config \<Rightarrow> ConsoleError list \<Rightarrow> console_event \<Rightarrow> ConsoleError list" where
  "consoleListener cfg errs ev =
     (if ev_type ev = ''error'' then
        (let message = (case ev_args ev of Some v # _ \<Rightarrow> v | _ \<Rightarrow> []);
             consoleErr = \<lparr>Message = message, Type = ev_type ev, Timestamp = ev_now ev,
                           URL = ev_location ev\<rparr>
         in (case ErrorFilter cfg of
               None \<Rightarrow> errs @ [consoleErr]
             | Some f \<Rightarrow> if \<not> f consoleErr then errs @ [consoleErr] else errs))
      else errs)"

text \<open>
  The step loop of \<open>runTest\<close>, from a session, a runner and the console errors seen so
  far: the error of the first step that fails (\<open>None\<close> when no step fails) with the
  state the loop ends in.
\<close>

fun runSteps ::
  "'b library \<Rightarrow> string \<Rightarrow> Step list \<Rightarrow> ConsoleError list \<times> 'b \<times> Runner
     \<Rightarrow> error option \<times> ConsoleError list \<times> 'b \<times> Runner" where
  "runSteps lib testName [] st = (None, st)"
| "runSteps lib testName (step # rest) (errs, b, r) =
     (case executeStep lib step testName b r of
        (Some err, evs, b', r') \<Rightarrow> (Some err, foldl (consoleListener (config r)) errs evs, b', r')
      | (None, evs, b', r') \<Rightarrow>
          runSteps lib testName rest (foldl (consoleListener (config r)) errs evs, b', r'))"

definition runTest :: "'b library \<Rightarrow> Test \<Rightarrow> Runner \<Rightarrow> TestResult \<times> Runner" where
  "runTest lib test r =
     (let b0 = NewContext lib;
          start = Now lib b0;
          result = \<lparr>rName = Name test, Passed = True, Error = None, Duration = 0, Errors = []\<rparr>
      in if \<not> allocStarted r then
           (result\<lparr>Passed := False, Error := Some BrowserNotStarted\<rparr>, r)
         else
           (case NavigateBlank lib b0 of
              (Some err, b) \<Rightarrow> (result\<lparr>Passed := False, Error := Some (InitFailed err)\<rparr>, r)
            | (None, b) \<Rightarrow>
               (case runSteps lib (Name test) (Steps test) ([], b, r) of (stepErr, errs, b', r') \<Rightarrow>
                  (let result = result\<lparr>Errors := errs\<rparr>;
                       result = (case stepErr of
                                   Some err \<Rightarrow> result\<lparr>Passed := False, Error := Some err\<rparr>
                                 | None \<Rightarrow> result);
                       result = (if FailOnConsoleError (config r) \<and> length (Errors result) > 0 then
                                   (let result = result\<lparr>Passed := False\<rparr>
                                    in if Error result = None then
                                         result\<lparr>Error := Some (ConsoleErrorsDetected (length (Errors result)))\<rparr>
                                       else result)
                                 else result);
                       result = result\<lparr>Duration := Now lib b' - start\<rparr>
                   in (result, r')))))"

section \<open>Run: the worker pool\<close>

text \<open>
  \<open>Run\<close> starts its workers, sends every test into the buffered channel \<open>testChan\<close>,
  closes it, starts a goroutine that closes \<open>resultChan\<close> once every worker has
  returned, and appends what it receives from \<open>resultChan\<close> to \<open>r.results\<close> until
  that channel is closed and empty. The goroutines run in any order, so \<open>Run\<close> is a
  transition system: a state of the pool, and one transition for each thing a goroutine
  can do next. A transition that would block in Go (a receive from an empty open channel,
  a send into a full one, \<open>wg.Wait()\<close> with a worker still running) is not enabled.
  A worker runs \<open>runTest\<close> in one transition.
\<close>

datatype worker = Idle | Holding TestResult | Exited

record pool =
  toSend :: "Test list"
  testChan :: "Test list"
  testChanClosed :: bool
  workers :: "worker list"
  resultChan :: "TestResult list"
  resultChanClosed :: bool
  capacity :: nat
  runner :: Runner
  returned :: bool

datatype action =
    MainSend
  | MainClose
  | WorkerReceive nat
  | WorkerSend nat
  | WorkerExit nat
  | CloseResults
  | MainCollect
  | MainReturn

definition Run_init :: "nat \<Rightarrow> Runner \<Rightarrow> pool" where
  "Run_init n r =
     \<lparr>toSend = tests r, testChan = [], testChanClosed = False,
      workers = replicate n Idle, resultChan = [], resultChanClosed = False,
      capacity = length (tests r), runner = r\<lparr>results := []\<rparr>, returned = False\<rparr>"

fun step :: "'b library \<Rightarrow> action \<Rightarrow> pool \<Rightarrow> pool option" where
  "step lib MainSend p =
     (case toSend p of
        test # rest \<Rightarrow>
          if length (testChan p) < capacity p
          then Some (p\<lparr>toSend := rest, testChan := testChan p @ [test]\<rparr>)
          else None
      | [] \<Rightarrow> None)"
| "step lib MainClose p =
     (if toSend p = [] \<and> \<not> testChanClosed p then Some (p\<lparr>testChanClosed := True\<rparr>) else None)"
| "step lib (WorkerReceive i) p =
     (if i < length (workers p) \<and> workers p ! i = Idle then
        (case testChan p of
           test # rest \<Rightarrow>
             (case runTest lib test (runner p) of (result, r') \<Rightarrow>
                Some (p\<lparr>testChan := rest, workers := (workers p)[i := Holding result], runner := r'\<rparr>))
         | [] \<Rightarrow> None)
      else None)"
| "step lib (WorkerSend i) p =
     (if i < length (workers p) then
        (case workers p ! i of
           Holding result \<Rightarrow>
             if length (resultChan p) < capacity p
             then Some (p\<lparr>resultChan := resultChan p @ [result], workers := (workers p)[i := Idle]\<rparr>)
             else None
         | _ \<Rightarrow> None)
      else None)"
| "step lib (WorkerExit i) p =
     (if i < length (workers p) \<and> workers p ! i = Idle \<and> testChan p = [] \<and> testChanClosed p
      then Some (p\<lparr>workers := (workers p)[i := Exited]\<rparr>)
      else None)"
| "step lib CloseResults p =
     (if testChanClosed p \<and> (\<forall>w \<in> set (workers p). w = Exited) \<and> \<not> resultChanClosed p
      then Some (p\<lparr>resultChanClosed := True\<rparr>)
      else None)"
| "step lib MainCollect p =
     (if testChanClosed p \<and> \<not> returned p then
        (case resultChan p of
           result # rest \<Rightarrow>
             Some (p\<lparr>resultChan := rest,
                     runner := (runner p)\<lparr>results := results (runner p) @ [result]\<rparr>\<rparr>)
         | [] \<Rightarrow> None)
      else None)"
| "step lib MainReturn p =
     (if testChanClosed p \<and> resultChan p = [] \<and> resultChanClosed p \<and> \<not> returned p
      then Some (p\<lparr>returned := True\<rparr>)
      else None)"

text \<open>A schedule is the list of transitions taken, in order; it runs as long as each is enabled.\<close>

fun exec :: "'b library \<Rightarrow> action list \<Rightarrow> pool \<Rightarrow> pool option" where
  "exec lib [] p = Some p"
| "exec lib (a # as) p = (case step lib a p of None \<Rightarrow> None | Some p' \<Rightarrow> exec lib as p')"

text \<open>\<open>Run\<close> with the four workers of the code.\<close>

definition Run :: "'b library \<Rightarrow> action list \<Rightarrow> Runner \<Rightarrow> pool option" where
  "Run lib schedule r = exec lib schedule (Run_init numWorkers r)"

section \<open>Notions used in the statements\<close>

text \<open>What the three replacements of the file-name block do to one byte.\<close>

definition sanitize :: "char \<Rightarrow> char" where
  "sanitize c = (if c = CHR '' '' \<or> c = CHR ''/'' \<or> c = CHR 0x5C then CHR ''_'' else c)"

text \<open>The runner a step leaves behind.\<close>

definition runnerAfter :: "error option \<times> console_event list \<times> 'b \<times> Runner \<Rightarrow> Runner" where
  "runnerAfter res = snd (snd (snd res))"

text \<open>
  A history: steps of any tests, each in the session it runs in, executed one after the
  other on one runner. The steps of one test and the steps of different tests of one
  run are such histories.
\<close>

fun runHistory :: "'b library \<Rightarrow> (Step \<times> string \<times> 'b) list \<Rightarrow> Runner \<Rightarrow> Runner" where
  "runHistory lib [] r = r"
| "runHistory lib ((stp, testName, b) # rest) r =
     runHistory lib rest (runnerAfter (executeStep lib stp testName b r))"

text \<open>A step of the history is a screenshot step without a file name for the test name.\<close>

definition autoNamed :: "string \<Rightarrow> Step \<times> string \<times> 'b \<Rightarrow> bool" where
  "autoNamed testName h =
     (case h of (stp, name, b) \<Rightarrow> Action stp = ''screenshot'' \<and> Target stp = [] \<and> name = testName)"

definition occurrences :: "string \<Rightarrow> (Step \<times> string \<times> 'b) list \<Rightarrow> nat" where
  "occurrences testName hist = length (filter (autoNamed testName) hist)"

text \<open>The screenshot step with a file name (empty for none).\<close>

definition shot :: "string \<Rightarrow> Step" where
  "shot filename = \<lparr>Action = ''screenshot'', Target = filename, Value = []\<rparr>"

text \<open>The file name the claim gives to the \<open>N\<close>-th occurrence.\<close>

definition occurrenceName :: "string \<Rightarrow> nat \<Rightarrow> string" where
  "occurrenceName testName N =
     map sanitize testName @ (if N = 1 then ''.png'' else ''_'' @ showInt (int N) @ ''.png'')"

text \<open>The path \<open>takeScreenshot\<close> works on: the screenshot directory joined with the resolved file name.\<close>

definition screenshotPath :: "string \<Rightarrow> string \<Rightarrow> Runner \<Rightarrow> string" where
  "screenshotPath filename testName r =
     Join (disk r) (ScreenshotDir (config r)) (fst (screenshotFilename filename testName r))"

text \<open>Some sampled pixel of row \<open>y\<close> differs between the two images.\<close>

definition rowDiffers :: "image \<Rightarrow> image \<Rightarrow> int \<Rightarrow> bool" where
  "rowDiffers b c y \<longleftrightarrow>
     (\<exists>i :: nat. Min_X (Bounds b) + 10 * int i < Max_X (Bounds b)
        \<and> \<not> colorsEqual (At b (Min_X (Bounds b) + 10 * int i) y) (At c (Min_X (Bounds b) + 10 * int i) y))"

text \<open>Some sampled pixel (every 10th column of every 10th row, from the upper left corner of the bounds) differs between the two images.\<close>

definition sampledDiffer :: "image \<Rightarrow> image \<Rightarrow> bool" where
  "sampledDiffer baselineImg currentImg \<longleftrightarrow>
     (\<exists>i j :: nat.
        Min_X (Bounds baselineImg) + 10 * int i < Max_X (Bounds baselineImg)
        \<and> Min_Y (Bounds baselineImg) + 10 * int j < Max_Y (Bounds baselineImg)
        \<and> \<not> colorsEqual (At baselineImg (Min_X (Bounds baselineImg) + 10 * int i)
                                        (Min_Y (Bounds baselineImg) + 10 * int j))
                          (At currentImg (Min_X (Bounds baselineImg) + 10 * int i)
                                       (Min_Y (Bounds baselineImg) + 10 * int j)))"

text \<open>Concrete inputs, on which the theorems below are run: a disk with no files on which every call succeeds, one on which no write succeeds, and one with a single file.\<close>

definition demoDisk :: filesystem where
  "demoDisk = \<lparr>files = Map.empty, Join = (\<lambda>dir name. dir @ ''/'' @ name), mkdirErr = Map.empty,
               statErr = (\<lambda>p. False), readErr = Map.empty, writeErr = Map.empty\<rparr>"

definition readOnlyDisk :: filesystem where
  "readOnlyDisk = demoDisk\<lparr>writeErr := (\<lambda>p. Some (''read-only file system'', None))\<rparr>"

definition diskWith :: "string \<Rightarrow> string \<Rightarrow> filesystem" where
  "diskWith p d = demoDisk\<lparr>files := [p \<mapsto> d]\<rparr>"

text \<open>A toy codec: a non-empty string decodes to one row of pixels, one pixel a byte.\<close>

definition demoImage :: "string \<Rightarrow> image" where
  "demoImage s = \<lparr>Bounds = \<lparr>Min_X = 0, Min_Y = 0, Max_X = int (length s), Max_Y = 1\<rparr>,
                At = (\<lambda>x y. if 0 \<le> x \<and> x < int (length s) \<and> y = 0
                             then (of_nat (of_char (s ! nat x)), 0, 0, 65535)
                             else (0, 0, 0, 0))\<rparr>"

definition demoDecode :: "string \<Rightarrow> string + image" where
  "demoDecode s = (if s = [] then Inl ''unexpected EOF'' else Inr (demoImage s))"

text \<open>A toy browser: its state counts the calls; the selector \<open>#missing\<close> is not found, and an action on \<open>#noisy\<close> logs a console error.\<close>

definition demoLib :: "nat library" where
  "demoLib =
     \<lparr>png_Decode = demoDecode,
      png_Encode = (\<lambda>d. Inr ''diff''),
      NewContext = 0,
      Now = int,
      NavigateBlank = (\<lambda>b. (None, Suc b)),
      BrowserAction = (\<lambda>step b. (if Target step = ''#missing'' then Some (BrowserError ''not found'') else None,
                                   if Target step = ''#noisy''
                                   then [\<lparr>ev_type = ''error'', ev_args = [Some ''boom''], ev_now = int b,
                                          ev_location = ''about:blank''\<rparr>]
                                   else [],
                                   Suc b)),
      FullScreenshot = (\<lambda>b. (Inr ''abc'', [], Suc b)),
      OuterHTML = (\<lambda>b. (Inr ''<p> x </p>'', [], Suc b))\<rparr>"

definition demoRunner :: Runner where
  "demoRunner = Start (NewRunner None demoDisk)"

definition demoHistory :: "(Step \<times> string \<times> nat) list" where
  "demoHistory = [(shot [], ''a b/c'', 0), (shot [], ''other'', 0), (shot [], ''a b/c'', 0)]"

definition readOnlyRunner :: Runner where
  "readOnlyRunner = Start (NewRunner None readOnlyDisk)"

definition runnerWith :: "string \<Rightarrow> string \<Rightarrow> Runner" where
  "runnerWith p d = Start (NewRunner None (diskWith p d))"

text \<open>The result \<open>runTest\<close> returns once the session is initialised: from the error of the step loop and the console errors the listener has recorded.\<close>

definition verdict :: "Config \<Rightarrow> string \<Rightarrow> error option \<Rightarrow> ConsoleError list \<Rightarrow> int \<Rightarrow> TestResult" where
  "verdict cfg name stepErr errs duration =
     \<lparr>rName = name,
      Passed = (stepErr = None \<and> \<not> (FailOnConsoleError cfg \<and> errs \<noteq> [])),
      Error = (case stepErr of
                 Some err \<Rightarrow> Some err
               | None \<Rightarrow> if FailOnConsoleError cfg \<and> errs \<noteq> []
                         then Some (ConsoleErrorsDetected (length errs)) else None),
      Duration = duration,
      Errors = errs\<rparr>"

text \<open>A click step.\<close>

definition click :: "string \<Rightarrow> Step" where
  "click selector = \<lparr>Action = ''click'', Target = selector, Value = []\<rparr>"

text \<open>A test whose second step fails, and a test whose only step logs a console error.\<close>

definition failingTest :: Test where
  "failingTest = \<lparr>Name = ''t'', Steps = [click ''#ok'', click ''#missing'', click ''#later'']\<rparr>"




text \<open>The name on the result a worker holds between \<open>runTest\<close> and its send, as a multiset.\<close>

fun heldName :: "worker \<Rightarrow> string multiset" where
  "heldName (Holding result) = {#rName result#}"
| "heldName Idle = {#}"
| "heldName Exited = {#}"

text \<open>The number of transitions a worker still makes on its own account: an idle worker exits; one that holds a result sends it, and it is idle again.\<close>

fun weight :: "worker \<Rightarrow> nat" where
  "weight Idle = 1"
| "weight (Holding result) = 3"
| "weight Exited = 0"

text \<open>The number of transitions a pool has left: a test not yet sent is sent, received, its result sent and collected; each channel is closed once, and \<open>Run\<close> returns once.\<close>

definition remaining :: "pool \<Rightarrow> nat" where
  "remaining p =
     4 * length (toSend p) + 3 * length (testChan p) + sum_list (map weight (workers p))
     + length (resultChan p)
     + (if testChanClosed p then 0 else 1) + (if resultChanClosed p then 0 else 1)
     + (if returned p then 0 else 1)"

text \<open>Every submitted test is in one place: waiting to be sent, in \<open>testChan\<close>, run and held by a worker, in \<open>resultChan\<close>, or in \<open>r.results\<close>. The multiset of the names found there.\<close>

definition accounted :: "pool \<Rightarrow> string multiset" where
  "accounted p =
     mset (map Name (toSend p)) + mset (map Name (testChan p))
     + sum_list (map heldName (workers p))
     + mset (map rName (resultChan p)) + mset (map rName (results (runner p)))"

text \<open>What holds of every state \<open>Run\<close> reaches, with \<open>W\<close> workers and the multiset \<open>names\<close> of the names of the submitted tests.\<close>

definition pool_inv :: "nat \<Rightarrow> string multiset \<Rightarrow> pool \<Rightarrow> bool" where
  "pool_inv W names p \<longleftrightarrow>
     length (workers p) = W \<and> capacity p = size names \<and> accounted p = names
     \<and> (testChanClosed p \<longrightarrow> toSend p = [])
     \<and> (Exited \<in> set (workers p) \<longrightarrow> testChanClosed p \<and> testChan p = [])
     \<and> (resultChanClosed p \<longrightarrow> testChanClosed p \<and> (\<forall>w \<in> set (workers p). w = Exited))
     \<and> (returned p \<longrightarrow> resultChanClosed p \<and> resultChan p = [])"

text \<open>A test without steps; a runner with two of them, and a schedule of \<open>Run\<close> in which the second test is finished first.\<close>

definition emptyTest :: "string \<Rightarrow> Test" where
  "emptyTest name = \<lparr>Name = name, Steps = []\<rparr>"

definition demoSuite :: Runner where
  "demoSuite = AddTest (emptyTest ''b'') (AddTest (emptyTest ''a'') demoRunner)"

definition demoSchedule :: "action list" where
  "demoSchedule =
     [MainSend, MainSend, MainClose, WorkerReceive 0, WorkerReceive 1, WorkerSend 1, WorkerSend 0,
      WorkerExit 0, WorkerExit 1, WorkerExit 2, WorkerExit 3, CloseResults,
      MainCollect, MainCollect, MainReturn]"

text \<open>The first byte of a string, if it has one.\<close>

definition first :: "string \<Rightarrow> char option" where
  "first s = (case s of [] \<Rightarrow> None | c # _ \<Rightarrow> Some c)"

text \<open>What \<open>normalizeHTML\<close> leaves nothing to do on.\<close>

definition normalised :: "string \<Rightarrow> bool" where
  "normalised y \<longleftrightarrow>
     CHR 0x0A \<notin> set y \<and> CHR 0x0D \<notin> set y \<and> CHR 0x09 \<notin> set y
     \<and> \<not> sublist ''  '' y \<and> \<not> sublist ''> '' y \<and> \<not> sublist '' <'' y
     \<and> TrimSpace y = y"

section \<open>Normalising HTML is idempotent\<close>

lemma first_simps [simp]: "first [] = None" "first (c # cs) = Some c"
  by (simp_all add: first_def)

lemma sublist_pair_Cons:
  "sublist [a, b] (c # cs) \<longleftrightarrow> (c = a \<and> first cs = Some b) \<or> sublist [a, b] cs"
  by (cases cs) (auto simp: sublist_Cons_right)

lemma prefix_pair_Cons: "prefix [a, b] (c # cs) \<longleftrightarrow> c = a \<and> first cs = Some b"
  by (cases cs) auto

lemma sublist_single: "sublist [a] s \<longleftrightarrow> a \<in> set s"
  by (induction s) (auto simp: sublist_Cons_right)

lemma ReplaceAll_absent: "\<not> sublist old s \<Longrightarrow> ReplaceAll s old new = s"
  by (induction s old new rule: ReplaceAll.induct) (auto simp: sublist_Cons_right)

lemma set_ReplaceAll: "set (ReplaceAll s old new) \<subseteq> set s \<union> set new"
proof (induction s old new rule: ReplaceAll.induct)
  case (1 old new)
  then show ?case by simp
next
  case (2 c cs old new)
  show ?case
  proof (cases "old \<noteq> [] \<and> prefix old (c # cs)")
    case True
    have "set (drop (length old) (c # cs)) \<subseteq> set (c # cs)" by (rule set_drop_subset)
    then show ?thesis using True 2(1) by auto
  next
    case False
    then show ?thesis using 2(2) by auto
  qed
qed


lemma ReplaceAll_char_gone: "c \<notin> set new \<Longrightarrow> c \<notin> set (ReplaceAll s [c] new)"
  by (induction s) auto

lemma collapseSpaces_nodbl: "\<not> sublist ''  '' (collapseSpaces s)"
proof (induction s rule: collapseSpaces.induct)
  case (1 html)
  show ?case
  proof (cases "Contains html ''  ''")
    case True
    then have "collapseSpaces html = collapseSpaces (ReplaceAll html ''  '' '' '')"
      by (subst collapseSpaces.simps) simp
    then show ?thesis using 1 [OF True] by simp
  next
    case False
    then have "collapseSpaces html = html" by (subst collapseSpaces.simps) simp
    then show ?thesis using False by (simp add: Contains_def)
  qed
qed

lemma set_collapseSpaces: "set (collapseSpaces s) \<subseteq> insert CHR '' '' (set s)"
proof (induction s rule: collapseSpaces.induct)
  case (1 html)
  show ?case
  proof (cases "Contains html ''  ''")
    case True
    then have "collapseSpaces html = collapseSpaces (ReplaceAll html ''  '' '' '')"
      by (subst collapseSpaces.simps) simp
    then show ?thesis using 1 [OF True] set_ReplaceAll [of html "''  ''" "'' ''"] by auto
  next
    case False
    then have "collapseSpaces html = html" by (subst collapseSpaces.simps) simp
    then show ?thesis by auto
  qed
qed

lemma collapseSpaces_absent: "\<not> sublist ''  '' s \<Longrightarrow> collapseSpaces s = s"
  by (subst collapseSpaces.simps) (simp add: Contains_def)

lemma sublist_Cons_mono: "\<not> sublist p (c # cs) \<Longrightarrow> \<not> sublist p cs"
  by (auto simp: sublist_Cons_right)

lemma sublist_append_mono: "\<not> sublist p (xs @ ys) \<Longrightarrow> \<not> sublist p ys"
  by (induction xs) (auto simp: sublist_Cons_right)

lemma ReplaceAll_Cons_no:
  "\<not> prefix old (c # cs) \<Longrightarrow> ReplaceAll (c # cs) old new = c # ReplaceAll cs old new"
  by simp

lemma ReplaceAll_prefix:
  "old \<noteq> [] \<Longrightarrow> ReplaceAll (old @ t) old new = new @ ReplaceAll t old new"
  by (cases old) simp_all

declare ReplaceAll.simps(2) [simp del]

lemma ReplaceAll_pattern_induct [case_names Nil Match Skip nonempty]:
  assumes "P []"
    and "\<And>t. P t \<Longrightarrow> P (old @ t)"
    and "\<And>c cs. \<not> prefix old (c # cs) \<Longrightarrow> P cs \<Longrightarrow> P (c # cs)"
    and "old \<noteq> []"
  shows "P s"
proof (induction "length s" arbitrary: s rule: less_induct)
  case less
  show ?case
  proof (cases s)
    case Nil
    then show ?thesis using assms(1) by simp
  next
    case (Cons c cs)
    show ?thesis
    proof (cases "prefix old s")
      case True
      then obtain t where s: "s = old @ t" by (auto simp: prefix_def)
      then have "length t < length s" using assms(4) by simp
      then show ?thesis using less assms(2) s by blast
    next
      case False
      have "length cs < length s" using Cons by simp
      then show ?thesis using less assms(3) False Cons by blast
    qed
  qed
qed

lemma squeeze_between:
  "\<not> sublist ''  '' s \<Longrightarrow>
     \<not> sublist ''  '' (ReplaceAll s ''> <'' ''><'')
     \<and> first (ReplaceAll s ''> <'' ''><'') = first s"
proof (induction s rule: ReplaceAll_pattern_induct [where old = "''> <''"])
  case Nil
  then show ?case by simp
next
  case (Match t)
  have "\<not> sublist ''  '' t" using Match.prems by (rule sublist_append_mono)
  then show ?case using Match.IH ReplaceAll_prefix [of "''> <''" t "''><''"]
    by (simp add: sublist_pair_Cons)
next
  case (Skip c cs)
  have "\<not> sublist ''  '' cs" using Skip.prems by (rule sublist_Cons_mono)
  then show ?case using Skip.IH Skip.prems ReplaceAll_Cons_no [OF Skip.hyps, of "''><''"]
    by (simp add: sublist_pair_Cons)
qed simp

lemma squeeze_after:
  "\<not> sublist ''  '' s \<Longrightarrow>
     \<not> sublist ''  '' (ReplaceAll s ''> '' ''>'')
     \<and> \<not> sublist ''> '' (ReplaceAll s ''> '' ''>'')
     \<and> first (ReplaceAll s ''> '' ''>'') = first s"
proof (induction s rule: ReplaceAll_pattern_induct [where old = "''> ''"])
  case Nil
  then show ?case by simp
next
  case (Match t)
  have "\<not> sublist ''  '' t" using Match.prems by (rule sublist_append_mono)
  moreover have "first t \<noteq> Some CHR '' ''" using Match.prems by (simp add: sublist_pair_Cons)
  ultimately show ?case using Match.IH ReplaceAll_prefix [of "''> ''" t "''>''"]
    by (simp add: sublist_pair_Cons)
next
  case (Skip c cs)
  have "\<not> sublist ''  '' cs" using Skip.prems by (rule sublist_Cons_mono)
  then show ?case
    using Skip.IH Skip.prems Skip.hyps [unfolded prefix_pair_Cons]
      ReplaceAll_Cons_no [OF Skip.hyps, of "''>''"]
    by (auto simp: sublist_pair_Cons)
qed simp

lemma squeeze_before:
  "\<not> sublist ''  '' s \<and> \<not> sublist ''> '' s \<Longrightarrow>
     \<not> sublist ''  '' (ReplaceAll s '' <'' ''<'')
     \<and> \<not> sublist ''> '' (ReplaceAll s '' <'' ''<'')
     \<and> \<not> sublist '' <'' (ReplaceAll s '' <'' ''<'')
     \<and> first (ReplaceAll s '' <'' ''<'')
         = (if prefix '' <'' s then Some CHR ''<'' else first s)"
proof (induction s rule: ReplaceAll_pattern_induct [where old = "'' <''"])
  case Nil
  then show ?case by simp
next
  case (Match t)
  have "\<not> sublist ''  '' t" using conjunct1 [OF Match.prems] by (rule sublist_append_mono)
  moreover have "\<not> sublist ''> '' t"
    using conjunct2 [OF Match.prems] by (rule sublist_append_mono)
  ultimately show ?case using Match.IH ReplaceAll_prefix [of "'' <''" t "''<''"]
    by (simp add: sublist_pair_Cons)
next
  case (Skip c cs)
  have "\<not> sublist ''  '' cs" using conjunct1 [OF Skip.prems] by (rule sublist_Cons_mono)
  moreover have "\<not> sublist ''> '' cs"
    using conjunct2 [OF Skip.prems] by (rule sublist_Cons_mono)
  ultimately have cs: "\<not> sublist ''  '' cs \<and> \<not> sublist ''> '' cs" by simp
  note IH = Skip.IH [OF cs]
  note R = ReplaceAll_Cons_no [OF Skip.hyps, of "''<''"]
  show ?case
  proof (cases cs)
    case Nil
    then show ?thesis using R IH Skip.prems Skip.hyps by (simp add: sublist_pair_Cons)
  next
    case (Cons d ds)
    then show ?thesis using R IH Skip.prems Skip.hyps
      by (auto simp: sublist_pair_Cons prefix_pair_Cons split: if_splits)
  qed
qed simp

lemma TrimLeftRunes_suffix: "suffix (TrimLeftRunes runes s) s"
proof (induction runes s rule: TrimLeftRunes.induct)
  case (1 runes s)
  show ?case
  proof (cases "leadingSpace runes s = 0")
    case True
    then show ?thesis by (subst TrimLeftRunes.simps) simp
  next
    case False
    have "suffix (TrimLeftRunes runes (drop (leadingSpace runes s) s)) (drop (leadingSpace runes s) s)"
      using 1 False by simp
    then have "suffix (TrimLeftRunes runes (drop (leadingSpace runes s) s)) s"
      using suffix_drop suffix_order.trans by blast
    then show ?thesis using False by (subst TrimLeftRunes.simps) simp
  qed
qed

lemma TrimLeftRunes_done: "leadingSpace runes (TrimLeftRunes runes s) = 0"
proof (induction runes s rule: TrimLeftRunes.induct)
  case (1 runes s)
  show ?case
  proof (cases "leadingSpace runes s = 0")
    case True
    then show ?thesis by (subst TrimLeftRunes.simps) simp
  next
    case False
    then show ?thesis using 1 by (subst TrimLeftRunes.simps) simp
  qed
qed

lemma TrimLeftRunes_fixed: "leadingSpace runes s = 0 \<Longrightarrow> TrimLeftRunes runes s = s"
  by (subst TrimLeftRunes.simps) simp

lemma leadingSpace_zero:
  "[] \<notin> set runes \<Longrightarrow> leadingSpace runes s = 0 \<longleftrightarrow> (\<forall>e \<in> set runes. \<not> prefix e s)"
  by (induction runes) (auto simp: leadingSpace_def)

lemma leadingSpace_prefix:
  assumes "[] \<notin> set runes" and "leadingSpace runes s = 0" and "prefix p s"
  shows "leadingSpace runes p = 0"
proof -
  have "\<forall>e \<in> set runes. \<not> prefix e s" using assms(1,2) by (simp add: leadingSpace_zero)
  then have "\<forall>e \<in> set runes. \<not> prefix e p" using assms(3) prefix_order.trans by blast
  then show ?thesis using assms(1) by (simp add: leadingSpace_zero)
qed

lemma spaceRunes_nonempty: "[] \<notin> set spaceRunes"
  by (simp add: spaceRunes_def)

lemma TrimRightSpace_prefix: "prefix (TrimRightSpace s) s"
  using TrimLeftRunes_suffix [of "map rev spaceRunes" "rev s"]
  by (simp add: TrimRightSpace_def suffix_to_prefix)

lemma TrimRightSpace_idem: "TrimRightSpace (TrimRightSpace s) = TrimRightSpace s"
  by (simp add: TrimRightSpace_def TrimLeftRunes_fixed TrimLeftRunes_done)

lemma TrimSpace_sublist: "sublist (TrimSpace s) s"
proof -
  have "sublist (TrimRightSpace (TrimLeftSpace s)) (TrimLeftSpace s)"
    using TrimRightSpace_prefix by (rule prefix_imp_sublist)
  moreover have "sublist (TrimLeftSpace s) s"
    unfolding TrimLeftSpace_def using TrimLeftRunes_suffix by (rule suffix_imp_sublist)
  ultimately show ?thesis unfolding TrimSpace_def by (rule sublist_order.order.trans)
qed

lemma TrimSpace_idem: "TrimSpace (TrimSpace s) = TrimSpace s"
proof -
  let ?t = "TrimLeftSpace s"
  have "leadingSpace spaceRunes ?t = 0" by (simp add: TrimLeftSpace_def TrimLeftRunes_done)
  then have "leadingSpace spaceRunes (TrimRightSpace ?t) = 0"
    using spaceRunes_nonempty TrimRightSpace_prefix leadingSpace_prefix by blast
  then have "TrimLeftSpace (TrimRightSpace ?t) = TrimRightSpace ?t"
    by (simp add: TrimLeftSpace_def TrimLeftRunes_fixed)
  then show ?thesis by (simp add: TrimSpace_def TrimRightSpace_idem)
qed

lemma ReplaceAll_keeps_out:
  "c \<notin> set s \<Longrightarrow> c \<notin> set new \<Longrightarrow> c \<notin> set (ReplaceAll s old new)"
  using set_ReplaceAll [of s old new] by auto

lemma collapseSpaces_keeps_out:
  "c \<notin> set s \<Longrightarrow> c \<noteq> CHR '' '' \<Longrightarrow> c \<notin> set (collapseSpaces s)"
  using set_collapseSpaces [of s] by auto

lemma TrimSpace_keeps_out: "c \<notin> set s \<Longrightarrow> c \<notin> set (TrimSpace s)"
  using set_mono_sublist [OF TrimSpace_sublist, of s] by auto

lemma TrimSpace_keeps_absent: "\<not> sublist p s \<Longrightarrow> \<not> sublist p (TrimSpace s)"
  using TrimSpace_sublist sublist_order.order.trans by blast

lemma normalizeHTML_normalised: "normalised (normalizeHTML x)"
proof -
  define s1 where "s1 = ReplaceAll x [CHR 0x0A] '' ''"
  define s2 where "s2 = ReplaceAll s1 [CHR 0x0D] '' ''"
  define s3 where "s3 = ReplaceAll s2 [CHR 0x09] '' ''"
  define s4 where "s4 = collapseSpaces s3"
  define s5 where "s5 = ReplaceAll s4 ''> <'' ''><''"
  define s6 where "s6 = ReplaceAll s5 ''> '' ''>''"
  define s7 where "s7 = ReplaceAll s6 '' <'' ''<''"
  have n: "normalizeHTML x = TrimSpace s7"
    by (simp add: normalizeHTML_def s1_def s2_def s3_def s4_def s5_def s6_def s7_def)
  have lf1: "CHR 0x0A \<notin> set s1" unfolding s1_def by (rule ReplaceAll_char_gone) simp
  have lf2: "CHR 0x0A \<notin> set s2" unfolding s2_def using lf1 by (rule ReplaceAll_keeps_out) simp
  have cr2: "CHR 0x0D \<notin> set s2" unfolding s2_def by (rule ReplaceAll_char_gone) simp
  have lf3: "CHR 0x0A \<notin> set s3" unfolding s3_def using lf2 by (rule ReplaceAll_keeps_out) simp
  have cr3: "CHR 0x0D \<notin> set s3" unfolding s3_def using cr2 by (rule ReplaceAll_keeps_out) simp
  have tb3: "CHR 0x09 \<notin> set s3" unfolding s3_def by (rule ReplaceAll_char_gone) simp
  have lf4: "CHR 0x0A \<notin> set s4" unfolding s4_def using lf3 by (rule collapseSpaces_keeps_out) simp
  have cr4: "CHR 0x0D \<notin> set s4" unfolding s4_def using cr3 by (rule collapseSpaces_keeps_out) simp
  have tb4: "CHR 0x09 \<notin> set s4" unfolding s4_def using tb3 by (rule collapseSpaces_keeps_out) simp
  have lf5: "CHR 0x0A \<notin> set s5" unfolding s5_def using lf4 by (rule ReplaceAll_keeps_out) simp
  have cr5: "CHR 0x0D \<notin> set s5" unfolding s5_def using cr4 by (rule ReplaceAll_keeps_out) simp
  have tb5: "CHR 0x09 \<notin> set s5" unfolding s5_def using tb4 by (rule ReplaceAll_keeps_out) simp
  have lf6: "CHR 0x0A \<notin> set s6" unfolding s6_def using lf5 by (rule ReplaceAll_keeps_out) simp
  have cr6: "CHR 0x0D \<notin> set s6" unfolding s6_def using cr5 by (rule ReplaceAll_keeps_out) simp
  have tb6: "CHR 0x09 \<notin> set s6" unfolding s6_def using tb5 by (rule ReplaceAll_keeps_out) simp
  have lf7: "CHR 0x0A \<notin> set s7" unfolding s7_def using lf6 by (rule ReplaceAll_keeps_out) simp
  have cr7: "CHR 0x0D \<notin> set s7" unfolding s7_def using cr6 by (rule ReplaceAll_keeps_out) simp
  have tb7: "CHR 0x09 \<notin> set s7" unfolding s7_def using tb6 by (rule ReplaceAll_keeps_out) simp
  have d4: "\<not> sublist ''  '' s4" unfolding s4_def by (rule collapseSpaces_nodbl)
  have d5: "\<not> sublist ''  '' s5" unfolding s5_def using squeeze_between [OF d4] by simp
  have d6: "\<not> sublist ''  '' s6 \<and> \<not> sublist ''> '' s6"
    unfolding s6_def using squeeze_after [OF d5] by simp
  have d7: "\<not> sublist ''  '' s7 \<and> \<not> sublist ''> '' s7 \<and> \<not> sublist '' <'' s7"
    unfolding s7_def using squeeze_before [OF d6] by simp
  show ?thesis
    unfolding normalised_def n
    using lf7 cr7 tb7 d7
    by (simp add: TrimSpace_keeps_out TrimSpace_keeps_absent TrimSpace_idem)
qed

lemma normalised_fixed:
  assumes "normalised y"
  shows "normalizeHTML y = y"
proof -
  have a: "ReplaceAll y [CHR 0x0A] '' '' = y" "ReplaceAll y [CHR 0x0D] '' '' = y"
    "ReplaceAll y [CHR 0x09] '' '' = y"
    using assms by (simp_all add: normalised_def ReplaceAll_absent sublist_single)
  have b: "collapseSpaces y = y"
    using assms by (simp add: normalised_def collapseSpaces_absent)
  have "\<not> sublist ''> <'' y"
  proof
    assume "sublist ''> <'' y"
    moreover have "sublist ''> '' ''> <''" by (simp add: sublist_pair_Cons)
    ultimately have "sublist ''> '' y" by (rule sublist_order.order.trans [rotated])
    then show False using assms by (simp add: normalised_def)
  qed
  then have c: "ReplaceAll y ''> <'' ''><'' = y" by (rule ReplaceAll_absent)
  have d: "ReplaceAll y ''> '' ''>'' = y" "ReplaceAll y '' <'' ''<'' = y"
    using assms by (simp_all add: normalised_def ReplaceAll_absent)
  have e: "TrimSpace y = y" using assms by (simp add: normalised_def)
  show ?thesis by (simp add: normalizeHTML_def a b c d e)
qed


text \<open>
  Claim C8. \<open>normalizeHTML\<close> is idempotent: normalising a normalised string changes
  nothing. And \<open>"<div>  <span>A</span>  </div>"\<close> normalises to the same string as
  \<open>"<div><span>A</span></div>"\<close>.
\<close>

theorem normalizeHTML_idempotent:
  "normalizeHTML (normalizeHTML x) = normalizeHTML x
   \<and> normalizeHTML ''<div>  <span>A</span>  </div>'' = normalizeHTML ''<div><span>A</span></div>''"
proof
  show "normalizeHTML (normalizeHTML x) = normalizeHTML x"
    by (rule normalised_fixed) (rule normalizeHTML_normalised)
  show "normalizeHTML ''<div>  <span>A</span>  </div>'' = normalizeHTML ''<div><span>A</span></div>''"
    by code_simp
qed

section \<open>File names: the occurrence counter\<close>

lemma ReplaceAll_char: "ReplaceAll s [a] [b] = map (\<lambda>c. if c = a then b else c) s"
  by (induction s) (auto simp: ReplaceAll.simps(2))

lemma safeName_map: "safeName testName = map sanitize testName"
  by (simp add: safeName_def ReplaceAll_char sanitize_def comp_def)

lemma wrap64_id: "- (2 ^ 63) \<le> i \<Longrightarrow> i < 2 ^ 63 \<Longrightarrow> wrap64 i = i"
  by (simp add: wrap64_def)

lemma showInt_examples: "showInt 2 = ''2''" "showInt 3 = ''3''"
  by code_simp+

lemma screenshotFilename_frame:
  "disk (snd (screenshotFilename f t r)) = disk r \<and> config (snd (screenshotFilename f t r)) = config r"
  by (simp add: screenshotFilename_def Let_def)

lemma takeScreenshot_counter:
  "screenshotCounter (runnerAfter (takeScreenshot lib f name b r))
     = screenshotCounter (snd (screenshotFilename f name r))"
  by (auto simp: takeScreenshot_def runnerAfter_def Let_def
      split: prod.splits option.splits sum.splits if_splits)

lemma takeSnapshot_counter:
  "screenshotCounter (runnerAfter (takeSnapshot lib f name b r)) = screenshotCounter r"
  by (auto simp: takeSnapshot_def snapshotFilename_def runnerAfter_def Let_def
      split: prod.splits option.splits sum.splits if_splits)

lemma screenshotFilename_lookup:
  "lookup0 (screenshotCounter (snd (screenshotFilename f name r))) t
     = (if f = [] \<and> name = t then wrap64 (lookup0 (screenshotCounter r) t + 1)
        else lookup0 (screenshotCounter r) t)"
  by (simp add: screenshotFilename_def Let_def lookup0_def)

lemma executeStep_counter:
  "lookup0 (screenshotCounter (runnerAfter (executeStep lib stp name b r))) t
     = (if autoNamed t (stp, name, b) then wrap64 (lookup0 (screenshotCounter r) t + 1)
        else lookup0 (screenshotCounter r) t)"
proof (cases "Action stp = ''screenshot''")
  case True
  then show ?thesis
    by (simp add: executeStep_def takeScreenshot_counter screenshotFilename_lookup autoNamed_def)
next
  case False
  note ns = this
  show ?thesis
  proof (cases "Action stp = ''snapshot''")
    case True
    then show ?thesis using ns
      by (simp add: executeStep_def takeSnapshot_counter autoNamed_def)
  next
    case False
    then show ?thesis using ns
      by (simp add: executeStep_def autoNamed_def runnerAfter_def split: prod.splits)
  qed
qed

lemma runHistory_counter:
  "lookup0 (screenshotCounter r) t = int c \<Longrightarrow> c + occurrences t hist < 2 ^ 63 \<Longrightarrow>
     lookup0 (screenshotCounter (runHistory lib hist r)) t = int (c + occurrences t hist)"
proof (induction hist arbitrary: r c)
  case Nil
  then show ?case by (simp add: occurrences_def)
next
  case (Cons h rest)
  obtain stp name b where h: "h = (stp, name, b)" by (cases h) auto
  let ?r = "runnerAfter (executeStep lib stp name b r)"
  show ?case
  proof (cases "autoNamed t h")
    case True
    then have o: "occurrences t (h # rest) = Suc (occurrences t rest)"
      by (simp add: occurrences_def)
    have "int c + 1 < 2 ^ 63" using Cons.prems(2) o by simp
    then have "wrap64 (int c + 1) = int (Suc c)" by (simp add: wrap64_id)
    then have "lookup0 (screenshotCounter ?r) t = int (Suc c)"
      using True Cons.prems(1) by (simp add: executeStep_counter h)
    moreover have "Suc c + occurrences t rest < 2 ^ 63" using Cons.prems(2) o by simp
    ultimately have "lookup0 (screenshotCounter (runHistory lib rest ?r)) t
        = int (Suc c + occurrences t rest)"
      by (rule Cons.IH)
    then show ?thesis using o by (simp add: h)
  next
    case False
    then have o: "occurrences t (h # rest) = occurrences t rest"
      by (simp add: occurrences_def)
    have "lookup0 (screenshotCounter ?r) t = int c"
      using False Cons.prems(1) by (simp add: executeStep_counter h)
    moreover have "c + occurrences t rest < 2 ^ 63" using Cons.prems(2) o by simp
    ultimately have "lookup0 (screenshotCounter (runHistory lib rest ?r)) t
        = int (c + occurrences t rest)"
      by (rule Cons.IH)
    then show ?thesis using o by (simp add: h)
  qed
qed

lemma screenshotFilename_nth:
  assumes "lookup0 (screenshotCounter r) testName = int n" and "n < 2 ^ 63 - 1"
  shows "screenshotFilename [] testName r =
           (map sanitize testName @ (if n = 0 then ''.png'' else ''_'' @ showInt (int n + 1) @ ''.png''),
            r\<lparr>screenshotCounter := (screenshotCounter r)(testName \<mapsto> int n + 1)\<rparr>)"
proof -
  have "int n + 1 < 2 ^ 63" using assms(2) by simp
  then have "wrap64 (int n + 1) = int n + 1" by (simp add: wrap64_id)
  then show ?thesis using assms(1)
    by (simp add: screenshotFilename_def Let_def safeName_map)
qed

lemma takeScreenshot_no_baseline:
  assumes "os_MkdirAll (ScreenshotDir (config r)) (disk r) = None"
    and "FullScreenshot lib b = (Inr screenshot, evs, b')"
    and "\<not> os_Stat (screenshotPath filename testName r) (disk r)"
  shows "takeScreenshot lib filename testName b r =
           (case os_WriteFile (screenshotPath filename testName r) screenshot (disk r) of
              (werr, fs') \<Rightarrow>
                (map_option ScreenshotSaveFailed werr, evs, b',
                 (snd (screenshotFilename filename testName r))\<lparr>disk := fs'\<rparr>))"
proof -
  obtain fn r1 where f: "screenshotFilename filename testName r = (fn, r1)"
    by (cases "screenshotFilename filename testName r") auto
  have fr: "disk r1 = disk r" "config r1 = config r"
    using screenshotFilename_frame [of filename testName r] f by simp_all
  have p: "screenshotPath filename testName r = Join (disk r) (ScreenshotDir (config r)) fn"
    by (simp add: screenshotPath_def f)
  show ?thesis
    using assms
    by (auto simp: takeScreenshot_def f fr p Let_def split: prod.splits option.splits)
qed

text \<open>
  Claim C3. A screenshot step without a file name derives it from the test name: every
  space, slash and backslash becomes an underscore, and the occurrence counter of that
  test name is appended. On a runner that has no counter for the test name yet, after
  any history of steps (of this test or of others, with or without file names) that
  holds \<open>N - 1\<close> screenshot steps without a file name for this test name, the next
  one, the \<open>N\<close>-th, resolves to \<open><sanitized>.png\<close> when \<open>N = 1\<close> and to
  \<open><sanitized>_N.png\<close> when \<open>N \<ge> 2\<close>, sets the counter of the name to \<open>N\<close> and
  leaves every other counter alone; the step works on that name in the screenshot
  directory, and writes the capture there when there is no baseline yet. This holds as
  long as the 64-bit counter has not wrapped (\<open>N < 2^63\<close>). For the test
  \<open>Login Test\<close> the first two names are \<open>Login_Test.png\<close> and \<open>Login_Test_2.png\<close>.
\<close>

theorem auto_screenshot_names:
  "(screenshotCounter r testName = None \<and> occurrences testName hist = N - 1 \<and> 0 < N \<and> N < 2 ^ 63
      \<longrightarrow>
      screenshotFilename [] testName (runHistory lib hist r) =
        (occurrenceName testName N,
         (runHistory lib hist r)
           \<lparr>screenshotCounter := (screenshotCounter (runHistory lib hist r))(testName \<mapsto> int N)\<rparr>)
      \<and> screenshotPath [] testName (runHistory lib hist r) =
          Join (disk (runHistory lib hist r)) (ScreenshotDir (config (runHistory lib hist r)))
            (occurrenceName testName N)
      \<and> (os_MkdirAll (ScreenshotDir (config (runHistory lib hist r))) (disk (runHistory lib hist r)) = None
          \<and> FullScreenshot lib b = (Inr screenshot, evs, b')
          \<and> \<not> os_Stat (screenshotPath [] testName (runHistory lib hist r)) (disk (runHistory lib hist r))
          \<and> writeErr (disk (runHistory lib hist r)) (screenshotPath [] testName (runHistory lib hist r)) = None
          \<longrightarrow> files (disk (runnerAfter (executeStep lib (shot []) testName b (runHistory lib hist r))))
                 (Join (disk (runHistory lib hist r)) (ScreenshotDir (config (runHistory lib hist r)))
                    (occurrenceName testName N))
               = Some screenshot))
   \<and> occurrenceName ''Login Test'' 1 = ''Login_Test.png''
   \<and> occurrenceName ''Login Test'' 2 = ''Login_Test_2.png''
   \<and> fst (screenshotFilename [] ''Login Test'' (NewRunner None fs)) = ''Login_Test.png''
   \<and> fst (screenshotFilename [] ''Login Test''
            (snd (screenshotFilename [] ''Login Test'' (NewRunner None fs)))) = ''Login_Test_2.png''"
proof (intro conjI impI)
  assume a: "screenshotCounter r testName = None \<and> occurrences testName hist = N - 1 \<and> 0 < N
      \<and> N < 2 ^ 63"
  let ?r = "runHistory lib hist r"
  obtain n where N: "N = Suc n" using a by (cases N) auto
  have z: "lookup0 (screenshotCounter r) testName = int 0" using a by (simp add: lookup0_def)
  have "0 + occurrences testName hist < 2 ^ 63" using a by arith
  then have "lookup0 (screenshotCounter ?r) testName = int (0 + occurrences testName hist)"
    using z by (rule runHistory_counter [rotated])
  then have c: "lookup0 (screenshotCounter ?r) testName = int n" using a N by simp
  have b: "n < 2 ^ 63 - 1" using a N by arith
  have o: "occurrenceName testName (Suc n) =
      map sanitize testName @ (if n = 0 then ''.png'' else ''_'' @ showInt (int n + 1) @ ''.png'')"
    by (simp add: occurrenceName_def add.commute)
  have i: "int (Suc n) = int n + 1" by simp
  show f: "screenshotFilename [] testName ?r =
        (occurrenceName testName N, ?r\<lparr>screenshotCounter := (screenshotCounter ?r)(testName \<mapsto> int N)\<rparr>)"
    unfolding N o i by (rule screenshotFilename_nth [OF c b])
  show p: "screenshotPath [] testName ?r =
      Join (disk ?r) (ScreenshotDir (config ?r)) (occurrenceName testName N)"
    by (simp add: screenshotPath_def f)
  assume h: "os_MkdirAll (ScreenshotDir (config ?r)) (disk ?r) = None
          \<and> FullScreenshot lib b = (Inr screenshot, evs, b')
          \<and> \<not> os_Stat (screenshotPath [] testName ?r) (disk ?r)
          \<and> writeErr (disk ?r) (screenshotPath [] testName ?r) = None"
  have "takeScreenshot lib [] testName b ?r =
         (case os_WriteFile (screenshotPath [] testName ?r) screenshot (disk ?r) of
              (werr, fs') \<Rightarrow>
                (map_option ScreenshotSaveFailed werr, evs, b',
                 (snd (screenshotFilename [] testName ?r))\<lparr>disk := fs'\<rparr>))"
    using h by (intro takeScreenshot_no_baseline) simp_all
  then show "files (disk (runnerAfter (executeStep lib (shot []) testName b ?r)))
                 (Join (disk ?r) (ScreenshotDir (config ?r)) (occurrenceName testName N))
               = Some screenshot"
    using h by (simp add: executeStep_def shot_def p [symmetric] os_WriteFile_def runnerAfter_def)
next
  show "occurrenceName ''Login Test'' 1 = ''Login_Test.png''"
    by (simp add: occurrenceName_def sanitize_def)
next
  show "occurrenceName ''Login Test'' 2 = ''Login_Test_2.png''"
    by (simp add: occurrenceName_def sanitize_def showInt_examples)
next
  show "fst (screenshotFilename [] ''Login Test'' (NewRunner None fs)) = ''Login_Test.png''"
    by (simp add: screenshotFilename_def NewRunner_def Let_def lookup0_def wrap64_def
        safeName_map sanitize_def)
next
  show "fst (screenshotFilename [] ''Login Test''
            (snd (screenshotFilename [] ''Login Test'' (NewRunner None fs)))) = ''Login_Test_2.png''"
    by (simp add: screenshotFilename_def NewRunner_def Let_def lookup0_def wrap64_def
        safeName_map sanitize_def showInt_examples)
qed

lemma demoHistory_run:
  "disk (runHistory demoLib demoHistory demoRunner) =
     demoDisk\<lparr>files := [''__screenshots__/a_b_c.png'' \<mapsto> ''abc'',
                        ''__screenshots__/other.png'' \<mapsto> ''abc'',
                        ''__screenshots__/a_b_c_2.png'' \<mapsto> ''abc'']\<rparr>"
  "config (runHistory demoLib demoHistory demoRunner) = defaultConfig"
  by (simp_all add: demoHistory_def executeStep_def takeScreenshot_def shot_def
      demoRunner_def Start_def NewRunner_def Let_def defaultConfig_def demoDisk_def demoLib_def
      screenshotFilename_def os_MkdirAll_def os_Stat_def os_WriteFile_def runnerAfter_def
      safeName_map sanitize_def lookup0_def wrap64_def showInt_examples)

theorem auto_screenshot_names_witness:
  "screenshotCounter demoRunner ''a b/c'' = None
   \<and> occurrences ''a b/c'' demoHistory = 3 - 1 \<and> (0::nat) < 3 \<and> (3::nat) < 2 ^ 63
   \<and> os_MkdirAll (ScreenshotDir (config (runHistory demoLib demoHistory demoRunner)))
        (disk (runHistory demoLib demoHistory demoRunner)) = None
   \<and> FullScreenshot demoLib 0 = (Inr ''abc'', [], 1)
   \<and> \<not> os_Stat ''__screenshots__/a_b_c_3.png'' (disk (runHistory demoLib demoHistory demoRunner))
   \<and> writeErr (disk (runHistory demoLib demoHistory demoRunner)) ''__screenshots__/a_b_c_3.png'' = None
   \<and> fst (screenshotFilename [] ''a b/c'' (runHistory demoLib demoHistory demoRunner)) = ''a_b_c_3.png''
   \<and> files (disk (runnerAfter (executeStep demoLib (shot []) ''a b/c'' 0
                (runHistory demoLib demoHistory demoRunner))))
         ''__screenshots__/a_b_c_3.png'' = Some ''abc''"
proof -
  let ?r = "runHistory demoLib demoHistory demoRunner"
  have n: "occurrenceName ''a b/c'' 3 = ''a_b_c_3.png''"
    by (simp add: occurrenceName_def sanitize_def showInt_examples)
  have h1: "screenshotCounter demoRunner ''a b/c'' = None"
    by (simp add: demoRunner_def Start_def NewRunner_def Let_def)
  have h2: "occurrences ''a b/c'' demoHistory = 3 - 1"
    by (simp add: occurrences_def demoHistory_def autoNamed_def shot_def)
  have h: "screenshotCounter demoRunner ''a b/c'' = None
      \<and> occurrences ''a b/c'' demoHistory = 3 - 1 \<and> (0::nat) < 3 \<and> (3::nat) < 2 ^ 63"
    using h1 h2 by simp
  note c = auto_screenshot_names [of demoRunner "''a b/c''" demoHistory 3 demoLib 0 "''abc''" "[]" 1,
      THEN conjunct1, rule_format, OF h]
  have p: "screenshotPath [] ''a b/c'' ?r = ''__screenshots__/a_b_c_3.png''"
    using c [THEN conjunct2, THEN conjunct1]
    by (simp add: n demoHistory_run demoDisk_def defaultConfig_def)
  have g: "os_MkdirAll (ScreenshotDir (config ?r)) (disk ?r) = None
      \<and> FullScreenshot demoLib 0 = (Inr ''abc'', [], 1)
      \<and> \<not> os_Stat (screenshotPath [] ''a b/c'' ?r) (disk ?r)
      \<and> writeErr (disk ?r) (screenshotPath [] ''a b/c'' ?r) = None"
  proof -
    have "FullScreenshot demoLib 0 = (Inr ''abc'', [], 1)" by (simp add: demoLib_def)
    then show ?thesis
      by (simp add: p demoHistory_run demoDisk_def defaultConfig_def os_MkdirAll_def os_Stat_def)
  qed
  have f: "fst (screenshotFilename [] ''a b/c'' ?r) = ''a_b_c_3.png''"
    using c [THEN conjunct1] by (simp add: n)
  have w: "files (disk (runnerAfter (executeStep demoLib (shot []) ''a b/c'' 0 ?r)))
      (Join (disk ?r) (ScreenshotDir (config ?r)) (occurrenceName ''a b/c'' 3)) = Some ''abc''"
    using c [THEN conjunct2, THEN conjunct2, rule_format, OF g] .
  have j: "Join (disk ?r) (ScreenshotDir (config ?r)) (occurrenceName ''a b/c'' 3)
      = ''__screenshots__/a_b_c_3.png''"
    by (simp add: n demoHistory_run demoDisk_def defaultConfig_def)
  show ?thesis using h g f w by (simp add: p j)
qed

lemma takeScreenshot_explicit_counters:
  assumes "filename \<noteq> []"
    and "takeScreenshot lib filename testName b r = (e, evs, b', r')"
  shows "screenshotCounter r' = screenshotCounter r \<and> snapshotCounter r' = snapshotCounter r
         \<and> config r' = config r"
  using assms
  by (auto simp: takeScreenshot_def screenshotFilename_def Let_def
      split: prod.splits option.splits sum.splits if_splits)

lemma takeSnapshot_explicit_counters:
  assumes "filename \<noteq> []"
    and "takeSnapshot lib filename testName b r = (e, evs, b', r')"
  shows "screenshotCounter r' = screenshotCounter r \<and> snapshotCounter r' = snapshotCounter r
         \<and> config r' = config r"
  using assms
  by (auto simp: takeSnapshot_def snapshotFilename_def Let_def
      split: prod.splits option.splits sum.splits if_splits)

lemma takeScreenshot_explicit_unread:
  assumes "filename \<noteq> []"
  shows "takeScreenshot lib filename testName b (r\<lparr>screenshotCounter := m, snapshotCounter := m'\<rparr>)
         = (case takeScreenshot lib filename testName b r of
              (e, evs, b', r') \<Rightarrow> (e, evs, b', r'\<lparr>screenshotCounter := m, snapshotCounter := m'\<rparr>))"
  using assms
  by (auto simp: takeScreenshot_def screenshotFilename_def Let_def
      split: prod.splits option.splits sum.splits if_splits)

lemma takeSnapshot_explicit_unread:
  assumes "filename \<noteq> []"
  shows "takeSnapshot lib filename testName b (r\<lparr>screenshotCounter := m, snapshotCounter := m'\<rparr>)
         = (case takeSnapshot lib filename testName b r of
              (e, evs, b', r') \<Rightarrow> (e, evs, b', r'\<lparr>screenshotCounter := m, snapshotCounter := m'\<rparr>))"
  using assms
  by (auto simp: takeSnapshot_def snapshotFilename_def Let_def
      split: prod.splits option.splits sum.splits if_splits)

lemma screenshotFilename_reads_counter:
  "screenshotCounter r' = screenshotCounter r \<Longrightarrow>
     fst (screenshotFilename f testName r') = fst (screenshotFilename f testName r)"
  by (simp add: screenshotFilename_def Let_def)

lemma snapshotFilename_reads_counter:
  "snapshotCounter r' = snapshotCounter r \<Longrightarrow>
     fst (snapshotFilename f testName r') = fst (snapshotFilename f testName r)"
  by (simp add: snapshotFilename_def Let_def)

lemma screenshotFilename_first:
  "screenshotCounter r testName = None \<Longrightarrow>
     fst (screenshotFilename [] testName r) = safeName testName @ ''.png''"
  by (simp add: screenshotFilename_def Let_def lookup0_def wrap64_def)

lemma snapshotFilename_first:
  "snapshotCounter r testName = None \<Longrightarrow>
     fst (snapshotFilename [] testName r) = safeName testName @ ''.html''"
  by (simp add: snapshotFilename_def Let_def lookup0_def wrap64_def)

text \<open>
  Claim C10. A screenshot or snapshot step with a non-empty file name uses that name as
  it is and neither reads nor changes the occurrence counters: the counters after the
  step are those before it, the step does the same on any other counters, and a later
  step without a file name gets the name it would have got without this step, which is
  the un-suffixed one when the test name had no counter yet.
\<close>

theorem explicit_filename_keeps_counter:
  assumes "filename \<noteq> []"
  shows "screenshotFilename filename testName r = (filename, r)
    \<and> snapshotFilename filename testName r = (filename, r)
    \<and> screenshotCounter (runnerAfter (takeScreenshot lib filename testName b r)) = screenshotCounter r
    \<and> snapshotCounter (runnerAfter (takeSnapshot lib filename testName b r)) = snapshotCounter r
    \<and> takeScreenshot lib filename testName b (r\<lparr>screenshotCounter := m, snapshotCounter := m'\<rparr>)
        = (case takeScreenshot lib filename testName b r of
             (e, evs, b', r') \<Rightarrow> (e, evs, b', r'\<lparr>screenshotCounter := m, snapshotCounter := m'\<rparr>))
    \<and> takeSnapshot lib filename testName b (r\<lparr>screenshotCounter := m, snapshotCounter := m'\<rparr>)
        = (case takeSnapshot lib filename testName b r of
             (e, evs, b', r') \<Rightarrow> (e, evs, b', r'\<lparr>screenshotCounter := m, snapshotCounter := m'\<rparr>))
    \<and> fst (screenshotFilename [] name (runnerAfter (takeScreenshot lib filename testName b r)))
        = fst (screenshotFilename [] name r)
    \<and> fst (snapshotFilename [] name (runnerAfter (takeSnapshot lib filename testName b r)))
        = fst (snapshotFilename [] name r)
    \<and> (screenshotCounter r testName = None \<longrightarrow>
         fst (screenshotFilename [] testName (runnerAfter (takeScreenshot lib filename testName b r)))
           = safeName testName @ ''.png'')
    \<and> (snapshotCounter r testName = None \<longrightarrow>
         fst (snapshotFilename [] testName (runnerAfter (takeSnapshot lib filename testName b r)))
           = safeName testName @ ''.html'')"
proof -
  obtain e evs b' r' where sc: "takeScreenshot lib filename testName b r = (e, evs, b', r')"
    by (cases "takeScreenshot lib filename testName b r") auto
  obtain e2 evs2 b2 r2 where sn: "takeSnapshot lib filename testName b r = (e2, evs2, b2, r2)"
    by (cases "takeSnapshot lib filename testName b r") auto
  have c1: "screenshotCounter r' = screenshotCounter r"
    using takeScreenshot_explicit_counters [OF assms sc] by simp
  have c2: "snapshotCounter r2 = snapshotCounter r"
    using takeSnapshot_explicit_counters [OF assms sn] by simp
  have a: "screenshotFilename filename testName r = (filename, r)"
    using assms by (simp add: screenshotFilename_def)
  have b: "snapshotFilename filename testName r = (filename, r)"
    using assms by (simp add: snapshotFilename_def)
  have f1: "fst (screenshotFilename [] name r') = fst (screenshotFilename [] name r)" for name
    using c1 by (rule screenshotFilename_reads_counter)
  have f2: "fst (snapshotFilename [] name r2) = fst (snapshotFilename [] name r)" for name
    using c2 by (rule snapshotFilename_reads_counter)
  have u1: "takeScreenshot lib filename testName b (r\<lparr>screenshotCounter := m, snapshotCounter := m'\<rparr>)
      = (e, evs, b', r'\<lparr>screenshotCounter := m, snapshotCounter := m'\<rparr>)"
    by (simp add: takeScreenshot_explicit_unread [OF assms] sc)
  have u2: "takeSnapshot lib filename testName b (r\<lparr>screenshotCounter := m, snapshotCounter := m'\<rparr>)
      = (e2, evs2, b2, r2\<lparr>screenshotCounter := m, snapshotCounter := m'\<rparr>)"
    by (simp add: takeSnapshot_explicit_unread [OF assms] sn)
  show ?thesis
    using a b c1 c2 f1 f2 u1 u2
    by (simp add: runnerAfter_def sc sn screenshotFilename_first snapshotFilename_first)
qed

theorem explicit_filename_keeps_counter_witness:
  "''home.png'' \<noteq> [] \<and> screenshotCounter demoRunner ''Login Test'' = None
   \<and> fst (screenshotFilename [] ''Login Test''
          (runnerAfter (takeScreenshot demoLib ''home.png'' ''Login Test'' 0 demoRunner)))
       = ''Login_Test.png''"
proof -
  have h: "''home.png'' \<noteq> []" by simp
  have n: "screenshotCounter demoRunner ''Login Test'' = None"
    by (simp add: demoRunner_def Start_def NewRunner_def Let_def)
  have s: "safeName ''Login Test'' = ''Login_Test''" by (simp add: safeName_map sanitize_def)
  note c = explicit_filename_keeps_counter [OF h, of "''Login Test''" demoRunner demoLib 0]
  note c9 = c [THEN conjunct2, THEN conjunct2, THEN conjunct2, THEN conjunct2, THEN conjunct2,
      THEN conjunct2, THEN conjunct2, THEN conjunct2, THEN conjunct1]
  show ?thesis using c9 n s by simp
qed

section \<open>The first screenshot becomes the baseline\<close>

text \<open>
  Claim C4, amended. When the screenshot directory can be made, the capture succeeds and
  \<open>os.Stat\<close> finds no file at the resolved path, the step writes the capture to that
  path and makes no comparison (it does the same with any PNG codec): it returns success
  when the write succeeds, and the file then holds the capture; it returns
  \<open>failed to save screenshot\<close> when the write fails.
\<close>

theorem bootstrap_baseline:
  assumes "os_MkdirAll (ScreenshotDir (config r)) (disk r) = None"
    and "FullScreenshot lib b = (Inr screenshot, evs, b')"
    and "\<not> os_Stat (screenshotPath filename testName r) (disk r)"
  shows "takeScreenshot lib filename testName b r =
           (case os_WriteFile (screenshotPath filename testName r) screenshot (disk r) of
              (werr, fs') \<Rightarrow>
                (map_option ScreenshotSaveFailed werr, evs, b',
                 (snd (screenshotFilename filename testName r))\<lparr>disk := fs'\<rparr>))
     \<and> (writeErr (disk r) (screenshotPath filename testName r) = None \<longrightarrow>
          fst (takeScreenshot lib filename testName b r) = None
          \<and> files (disk (runnerAfter (takeScreenshot lib filename testName b r)))
               (screenshotPath filename testName r) = Some screenshot)
     \<and> (\<forall>e w. writeErr (disk r) (screenshotPath filename testName r) = Some (e, w) \<longrightarrow>
          fst (takeScreenshot lib filename testName b r) = Some (ScreenshotSaveFailed e))
     \<and> takeScreenshot (lib\<lparr>png_Decode := dec, png_Encode := enc\<rparr>) filename testName b r
         = takeScreenshot lib filename testName b r"
proof -
  obtain fn r1 where f: "screenshotFilename filename testName r = (fn, r1)"
    by (cases "screenshotFilename filename testName r") auto
  have fr: "disk r1 = disk r" "config r1 = config r"
    using screenshotFilename_frame [of filename testName r] f by simp_all
  have p: "screenshotPath filename testName r = Join (disk r) (ScreenshotDir (config r)) fn"
    by (simp add: screenshotPath_def f)
  have t: "takeScreenshot lib' filename testName b r =
      (case os_WriteFile (screenshotPath filename testName r) screenshot (disk r) of
              (werr, fs') \<Rightarrow> (map_option ScreenshotSaveFailed werr, evs, b', r1\<lparr>disk := fs'\<rparr>))"
    if "FullScreenshot lib' = FullScreenshot lib" for lib' :: "'a library"
    using assms that
    by (auto simp: takeScreenshot_def f fr p Let_def split: prod.splits option.splits)
  have t1: "takeScreenshot lib filename testName b r =
      (case os_WriteFile (screenshotPath filename testName r) screenshot (disk r) of
              (werr, fs') \<Rightarrow> (map_option ScreenshotSaveFailed werr, evs, b', r1\<lparr>disk := fs'\<rparr>))"
    by (rule t) simp
  have t2: "takeScreenshot (lib\<lparr>png_Decode := dec, png_Encode := enc\<rparr>) filename testName b r =
      takeScreenshot lib filename testName b r"
    unfolding t1 by (rule t) simp
  show ?thesis
    unfolding t2 unfolding t1
    by (auto simp: f os_WriteFile_def runnerAfter_def split: option.splits)
qed

lemmas demo_defs = demoRunner_def readOnlyRunner_def Start_def NewRunner_def Let_def defaultConfig_def
  demoDisk_def readOnlyDisk_def demoLib_def screenshotPath_def screenshotFilename_def
  os_MkdirAll_def os_Stat_def os_WriteFile_def os_ReadFile_def runnerAfter_def

theorem bootstrap_baseline_witness:
  "os_MkdirAll (ScreenshotDir (config demoRunner)) (disk demoRunner) = None
   \<and> FullScreenshot demoLib 0 = (Inr ''abc'', [], 1)
   \<and> \<not> os_Stat (screenshotPath ''home.png'' ''t'' demoRunner) (disk demoRunner)
   \<and> writeErr (disk demoRunner) (screenshotPath ''home.png'' ''t'' demoRunner) = None
   \<and> fst (takeScreenshot demoLib ''home.png'' ''t'' 0 demoRunner) = None
   \<and> files (disk (runnerAfter (takeScreenshot demoLib ''home.png'' ''t'' 0 demoRunner)))
        ''__screenshots__/home.png'' = Some ''abc''"
proof -
  have h1: "os_MkdirAll (ScreenshotDir (config demoRunner)) (disk demoRunner) = None"
    by (simp add: demo_defs)
  have h2: "FullScreenshot demoLib 0 = (Inr ''abc'', [], 1)"
    by (simp add: demo_defs)
  have h3: "\<not> os_Stat (screenshotPath ''home.png'' ''t'' demoRunner) (disk demoRunner)"
    by (simp add: demo_defs)
  have h4: "writeErr (disk demoRunner) (screenshotPath ''home.png'' ''t'' demoRunner) = None"
    by (simp add: demo_defs)
  have p: "screenshotPath ''home.png'' ''t'' demoRunner = ''__screenshots__/home.png''"
    by (simp add: demo_defs)
  note c = bootstrap_baseline [OF h1 h2 h3, THEN conjunct2, THEN conjunct1]
  show ?thesis using c h1 h2 h3 h4 by (simp add: p)
qed

text \<open>
  Claim C4 as stated fails on a disk on which no file can be opened for writing: no
  file exists at the resolved path, and the step does not return success; here it also
  leaves no file behind.
\<close>

theorem bootstrap_write_fails_counterexample:
  "\<not> os_Stat (screenshotPath ''home.png'' ''t'' readOnlyRunner) (disk readOnlyRunner)
   \<and> fst (takeScreenshot demoLib ''home.png'' ''t'' 0 readOnlyRunner)
       = Some (ScreenshotSaveFailed ''read-only file system'')
   \<and> files (disk (runnerAfter (takeScreenshot demoLib ''home.png'' ''t'' 0 readOnlyRunner)))
        (screenshotPath ''home.png'' ''t'' readOnlyRunner) = None"
  by (simp add: demo_defs takeScreenshot_def)

section \<open>The two phases of the image comparison\<close>

lemma sampleRow_iff:
  "sampleRow b c y x \<longleftrightarrow>
     (\<exists>i :: nat. x + 10 * int i < Max_X (Bounds b)
        \<and> \<not> colorsEqual (At b (x + 10 * int i) y) (At c (x + 10 * int i) y))"
proof (induction b c y x rule: sampleRow.induct)
  case (1 b c y x)
  show ?case
  proof (cases "x < Max_X (Bounds b)")
    case False
    then have "\<not> sampleRow b c y x" by (subst sampleRow.simps) simp
    moreover have "\<not> x + 10 * int i < Max_X (Bounds b)" for i using False by simp
    ultimately show ?thesis by blast
  next
    case True
    show ?thesis
    proof (cases "colorsEqual (At b x y) (At c x y)")
      case False
      then have "sampleRow b c y x" using True by (subst sampleRow.simps) simp
      moreover have "x + 10 * int 0 < Max_X (Bounds b)
          \<and> \<not> colorsEqual (At b (x + 10 * int 0) y) (At c (x + 10 * int 0) y)"
        using True False by simp
      ultimately show ?thesis by blast
    next
      case eq: True
      have s: "sampleRow b c y x = sampleRow b c y (x + sampleStep)"
        using True eq by (subst sampleRow.simps) simp
      have IH: "sampleRow b c y (x + sampleStep) \<longleftrightarrow>
          (\<exists>i :: nat. x + sampleStep + 10 * int i < Max_X (Bounds b)
            \<and> \<not> colorsEqual (At b (x + sampleStep + 10 * int i) y) (At c (x + sampleStep + 10 * int i) y))"
        using 1 True eq by simp
      have "(\<exists>i :: nat. x + sampleStep + 10 * int i < Max_X (Bounds b)
            \<and> \<not> colorsEqual (At b (x + sampleStep + 10 * int i) y) (At c (x + sampleStep + 10 * int i) y))
         \<longleftrightarrow> (\<exists>i :: nat. x + 10 * int i < Max_X (Bounds b)
            \<and> \<not> colorsEqual (At b (x + 10 * int i) y) (At c (x + 10 * int i) y))"
        (is "?L \<longleftrightarrow> ?R")
      proof
        assume ?L
        then obtain i :: nat where i: "x + sampleStep + 10 * int i < Max_X (Bounds b)"
          "\<not> colorsEqual (At b (x + sampleStep + 10 * int i) y) (At c (x + sampleStep + 10 * int i) y)"
          by blast
        have "x + sampleStep + 10 * int i = x + 10 * int (Suc i)" by (simp add: sampleStep_def)
        then show ?R using i by metis
      next
        assume ?R
        then obtain i :: nat where i: "x + 10 * int i < Max_X (Bounds b)"
          "\<not> colorsEqual (At b (x + 10 * int i) y) (At c (x + 10 * int i) y)"
          by blast
        have "i \<noteq> 0" using i(2) eq by (cases i) auto
        then obtain k where k: "i = Suc k" by (cases i) auto
        have "x + 10 * int i = x + sampleStep + 10 * int k" by (simp add: k sampleStep_def)
        then show ?L using i by metis
      qed
      then show ?thesis using s IH by simp
    qed
  qed
qed

lemma sampleRow_rowDiffers: "sampleRow b c y (Min_X (Bounds b)) = rowDiffers b c y"
  unfolding rowDiffers_def by (rule sampleRow_iff)

lemma sampleRows_iff:
  "sampleRows b c y \<longleftrightarrow>
     (\<exists>j :: nat. y + 10 * int j < Max_Y (Bounds b) \<and> rowDiffers b c (y + 10 * int j))"
proof (induction b c y rule: sampleRows.induct)
  case (1 b c y)
  show ?case
  proof (cases "y < Max_Y (Bounds b)")
    case False
    then have "\<not> sampleRows b c y" by (subst sampleRows.simps) simp
    moreover have "\<not> y + 10 * int j < Max_Y (Bounds b)" for j using False by simp
    ultimately show ?thesis by blast
  next
    case True
    show ?thesis
    proof (cases "rowDiffers b c y")
      case d: True
      then have "sampleRows b c y"
        using True by (subst sampleRows.simps) (simp add: sampleRow_rowDiffers)
      moreover have "y + 10 * int 0 < Max_Y (Bounds b) \<and> rowDiffers b c (y + 10 * int 0)"
        using True d by simp
      ultimately show ?thesis by blast
    next
      case eq: False
      have s: "sampleRows b c y = sampleRows b c (y + sampleStep)"
        using True eq by (subst sampleRows.simps) (simp add: sampleRow_rowDiffers)
      have IH: "sampleRows b c (y + sampleStep) \<longleftrightarrow>
          (\<exists>j :: nat. y + sampleStep + 10 * int j < Max_Y (Bounds b)
             \<and> rowDiffers b c (y + sampleStep + 10 * int j))"
        using 1 True eq by (simp add: sampleRow_rowDiffers)
      have "(\<exists>j :: nat. y + sampleStep + 10 * int j < Max_Y (Bounds b)
             \<and> rowDiffers b c (y + sampleStep + 10 * int j))
         \<longleftrightarrow> (\<exists>j :: nat. y + 10 * int j < Max_Y (Bounds b) \<and> rowDiffers b c (y + 10 * int j))"
        (is "?L \<longleftrightarrow> ?R")
      proof
        assume ?L
        then obtain j :: nat where j: "y + sampleStep + 10 * int j < Max_Y (Bounds b)"
          "rowDiffers b c (y + sampleStep + 10 * int j)"
          by blast
        have "y + sampleStep + 10 * int j = y + 10 * int (Suc j)" by (simp add: sampleStep_def)
        then show ?R using j by metis
      next
        assume ?R
        then obtain j :: nat where j: "y + 10 * int j < Max_Y (Bounds b)"
          "rowDiffers b c (y + 10 * int j)"
          by blast
        have "j \<noteq> 0" using j(2) eq by (cases j) auto
        then obtain k where k: "j = Suc k" by (cases j) auto
        have "y + 10 * int j = y + sampleStep + 10 * int k" by (simp add: k sampleStep_def)
        then show ?L using j by metis
      qed
      then show ?thesis using s IH by simp
    qed
  qed
qed

lemma sampleRows_sampledDiffer:
  "sampleRows b c (Min_Y (Bounds b)) = sampledDiffer b c"
  unfolding sampleRows_iff sampledDiffer_def rowDiffers_def by blast

lemma sampleRows_sampledDiffer':
  "Bounds b = Bounds c \<Longrightarrow> sampleRows b c (Min_Y (Bounds c)) = sampledDiffer b c"
  using sampleRows_sampledDiffer [of b c] by simp

text \<open>
  Claim C5. For two decodable inputs with the same bounds, \<open>compareImages\<close> returns
  difference 0 and no diff image when no sampled pixel differs; two identical decodable
  inputs give difference 0 and no diff image; and the full pass decides the result
  exactly when the inputs differ as bytes, have the same bounds and some sampled pixel
  differs, so a result with a diff image means that some sampled pixel differs.
\<close>

theorem sampled_equal_no_difference:
  "(png_Decode lib baseline = Inr bi \<and> png_Decode lib current = Inr ci
      \<and> Bounds bi = Bounds ci \<and> \<not> sampledDiffer bi ci
      \<longrightarrow> compareImages lib baseline current = Inr (0, None))
   \<and> (png_Decode lib baseline = Inr bi \<longrightarrow> compareImages lib baseline baseline = Inr (0, None))
   \<and> (png_Decode lib baseline = Inr bi \<and> png_Decode lib current = Inr ci
      \<and> baseline \<noteq> current \<and> Bounds bi = Bounds ci \<and> sampledDiffer bi ci
      \<longrightarrow> compareImages lib baseline current =
           (case png_Encode lib (snd (fullPass bi ci)) of
              Inl err \<Rightarrow> Inl err
            | Inr diffBuf \<Rightarrow>
                Inr (real (fst (fullPass bi ci)) / real_of_int (Dx (Bounds bi) * Dy (Bounds bi)),
                     Some diffBuf)))
   \<and> (png_Decode lib baseline = Inr bi \<and> png_Decode lib current = Inr ci
      \<and> compareImages lib baseline current = Inr (d, Some diffBuf)
      \<longrightarrow> sampledDiffer bi ci)"
  by (auto simp: compareImages_def Let_def sampleRows_sampledDiffer sampleRows_sampledDiffer'
      split: sum.splits prod.splits if_splits)

text \<open>
  Claim C6. For two decodable inputs whose bounds differ, \<open>compareImages\<close> returns
  difference 1 and no diff image, whatever the pixels of the two images and whatever the
  encoder: no pixel is looked at.
\<close>

theorem different_bounds_full_difference:
  assumes "png_Decode lib baseline = Inr bi" and "png_Decode lib current = Inr ci"
    and "Bounds bi \<noteq> Bounds ci"
  shows "compareImages lib baseline current = Inr (1, None)
    \<and> compareImages
         (lib\<lparr>png_Decode := (\<lambda>s. map_sum id (\<lambda>img. img\<lparr>At := pixels s\<rparr>) (png_Decode lib s)),
              png_Encode := enc\<rparr>) baseline current = Inr (1, None)"
proof -
  have "baseline \<noteq> current" using assms by auto
  then show ?thesis using assms by (simp add: compareImages_def)
qed

section \<open>A screenshot that differs from its baseline\<close>

text \<open>
  Claim C7, amended. When the comparison with an existing baseline gives a difference
  above the threshold, the step fails with an error that carries the difference and the
  threshold as percentages and the path of the baseline; it writes the capture to
  \<open><stem>.actual.png\<close>, where \<open><stem>\<close> is the baseline path without a final
  \<open>.png\<close>, and it writes the diff image to \<open><stem>.diff.png\<close> when the comparison
  made one; when it made none, that file is left as it was. Both writes drop their error.
\<close>

theorem mismatch_writes_artifacts:
  assumes "os_MkdirAll (ScreenshotDir (config r)) (disk r) = None"
    and "FullScreenshot lib b = (Inr screenshot, evs, b')"
    and "os_Stat (screenshotPath filename testName r) (disk r)"
    and "os_ReadFile (screenshotPath filename testName r) (disk r) = Inr baselineData"
    and "compareImages lib baselineData screenshot = Inr (diff, diffImage)"
    and "diff > ScreenshotThreshold (config r)"
  shows "fst (takeScreenshot lib filename testName b r)
           = Some (ScreenshotDiffers (diff * 100) (ScreenshotThreshold (config r) * 100)
                     (screenshotPath filename testName r))
     \<and> disk (runnerAfter (takeScreenshot lib filename testName b r))
           = (let stem = TrimSuffix (screenshotPath filename testName r) ''.png'';
                  fs1 = snd (os_WriteFile (stem @ ''.actual.png'') screenshot (disk r))
              in case diffImage of
                   None \<Rightarrow> fs1
                 | Some d \<Rightarrow> snd (os_WriteFile (stem @ ''.diff.png'') d fs1))
     \<and> (writeErr (disk r) (TrimSuffix (screenshotPath filename testName r) ''.png'' @ ''.actual.png'') = None
          \<longrightarrow> files (disk (runnerAfter (takeScreenshot lib filename testName b r)))
                (TrimSuffix (screenshotPath filename testName r) ''.png'' @ ''.actual.png'')
              = Some screenshot)
     \<and> (\<forall>d. diffImage = Some d
            \<and> writeErr (disk r) (TrimSuffix (screenshotPath filename testName r) ''.png'' @ ''.diff.png'') = None
          \<longrightarrow> files (disk (runnerAfter (takeScreenshot lib filename testName b r)))
                (TrimSuffix (screenshotPath filename testName r) ''.png'' @ ''.diff.png'')
              = Some d)
     \<and> (diffImage = None
          \<longrightarrow> files (disk (runnerAfter (takeScreenshot lib filename testName b r)))
                (TrimSuffix (screenshotPath filename testName r) ''.png'' @ ''.diff.png'')
              = files (disk r) (TrimSuffix (screenshotPath filename testName r) ''.png'' @ ''.diff.png''))"
proof -
  obtain fn r1 where f: "screenshotFilename filename testName r = (fn, r1)"
    by (cases "screenshotFilename filename testName r") auto
  have fr: "disk r1 = disk r" "config r1 = config r"
    using screenshotFilename_frame [of filename testName r] f by simp_all
  have p: "Join (disk r) (ScreenshotDir (config r)) fn = screenshotPath filename testName r"
    by (simp add: screenshotPath_def f)
  define stem where "stem = TrimSuffix (screenshotPath filename testName r) ''.png''"
  define fs1 where "fs1 = snd (os_WriteFile (stem @ ''.actual.png'') screenshot (disk r))"
  define fs2 where "fs2 = (case diffImage of None \<Rightarrow> fs1
                           | Some d \<Rightarrow> snd (os_WriteFile (stem @ ''.diff.png'') d fs1))"
  have t: "takeScreenshot lib filename testName b r =
      (Some (ScreenshotDiffers (diff * 100) (ScreenshotThreshold (config r) * 100)
               (screenshotPath filename testName r)), evs, b', r1\<lparr>disk := fs2\<rparr>)"
    using assms
    by (simp add: takeScreenshot_def f fr p Let_def fs2_def fs1_def stem_def split: option.split)
  have ne: "stem @ ''.actual.png'' \<noteq> stem @ ''.diff.png''" by simp
  have w: "writeErr fs1 = writeErr (disk r)"
    by (simp add: fs1_def os_WriteFile_def split: option.splits prod.splits)
  have a1: "files fs1 (stem @ ''.actual.png'') = Some screenshot"
    if "writeErr (disk r) (stem @ ''.actual.png'') = None"
    using that by (simp add: fs1_def os_WriteFile_def)
  have d1: "files fs1 (stem @ ''.diff.png'') = files (disk r) (stem @ ''.diff.png'')"
    using ne by (simp add: fs1_def os_WriteFile_def split: option.splits prod.splits)
  have a2: "files fs2 (stem @ ''.actual.png'') = files fs1 (stem @ ''.actual.png'')"
    using ne by (simp add: fs2_def os_WriteFile_def split: option.splits prod.splits)
  have d2: "files fs2 (stem @ ''.diff.png'') = Some d"
    if "diffImage = Some d" "writeErr (disk r) (stem @ ''.diff.png'') = None" for d
    using that w by (simp add: fs2_def os_WriteFile_def)
  have d3: "files fs2 (stem @ ''.diff.png'') = files (disk r) (stem @ ''.diff.png'')"
    if "diffImage = None"
    using that d1 by (simp add: fs2_def)
  show ?thesis
    unfolding t runnerAfter_def stem_def [symmetric]
    apply (intro conjI)
    subgoal by simp
    subgoal by (simp add: fs2_def fs1_def Let_def split: option.split)
    subgoal using a1 a2 by simp
    subgoal using d2 by simp
    subgoal using d3 by simp
    done
qed

lemma demoDecode_image: "s \<noteq> [] \<Longrightarrow> png_Decode demoLib s = Inr (demoImage s)"
  by (simp add: demoLib_def demoDecode_def demoImage_def)

lemma demo_compare_bounds: "compareImages demoLib ''ab'' ''abc'' = Inr (1, None)"
  by (simp add: compareImages_def demoDecode_image demoImage_def)

lemma demo_sample_ab_ac: "\<not> sampledDiffer (demoImage ''ab'') (demoImage ''ac'')"
  unfolding sampleRows_sampledDiffer [symmetric]
  by (simp add: sampleRows.simps sampleRow.simps demoImage_def sampleStep_def colorsEqual_def)

lemma demo_sample_xbc_abc: "sampledDiffer (demoImage ''xbc'') (demoImage ''abc'')"
  unfolding sampleRows_sampledDiffer [symmetric]
  by (simp add: sampleRows.simps sampleRow.simps demoImage_def sampleStep_def colorsEqual_def)

lemma demo_fullPass: "fst (fullPass (demoImage ''xbc'') (demoImage ''abc'')) = 1"
  by (simp add: fullPass_def bandOf_def compareBand_def numWorkers_def Dy_def demoImage_def
      colorsEqual_def Let_def upt_rec upto.simps)

lemma demo_compare_xbc: "compareImages demoLib ''xbc'' ''abc'' = Inr (1 / 3, Some ''diff'')"
proof -
  have "sampleRows (demoImage ''xbc'') (demoImage ''abc'') (Min_Y (Bounds (demoImage ''xbc'')))"
    using demo_sample_xbc_abc by (simp add: sampleRows_sampledDiffer)
  moreover have "png_Encode demoLib d = Inr ''diff''" for d by (simp add: demoLib_def)
  moreover have "Dx (Bounds (demoImage ''abc'')) = 3" "Dy (Bounds (demoImage ''abc'')) = 1"
    by (simp_all add: Dx_def Dy_def demoImage_def)
  moreover have "Bounds (demoImage ''xbc'') = Bounds (demoImage ''abc'')"
    by (simp add: demoImage_def)
  ultimately show ?thesis
    using demo_fullPass
    by (simp add: compareImages_def demoDecode_image Let_def case_prod_beta)
qed

lemma demo_compare_ab_ac: "compareImages demoLib ''ab'' ''ac'' = Inr (0, None)"
proof -
  have "\<not> sampleRows (demoImage ''ab'') (demoImage ''ac'') (Min_Y (Bounds (demoImage ''ab'')))"
    using demo_sample_ab_ac by (simp add: sampleRows_sampledDiffer)
  moreover have "Bounds (demoImage ''ab'') = Bounds (demoImage ''ac'')"
    by (simp add: demoImage_def)
  ultimately show ?thesis
    by (simp add: compareImages_def demoDecode_image Let_def)
qed

lemma demo_stem: "TrimSuffix ''__screenshots__/home.png'' ''.png'' = ''__screenshots__/home''"
  by code_simp

lemmas demo_defs2 = demo_defs runnerWith_def diskWith_def

theorem sampled_equal_no_difference_witness:
  "png_Decode demoLib ''ab'' = Inr (demoImage ''ab'')
   \<and> png_Decode demoLib ''ac'' = Inr (demoImage ''ac'')
   \<and> Bounds (demoImage ''ab'') = Bounds (demoImage ''ac'')
   \<and> \<not> sampledDiffer (demoImage ''ab'') (demoImage ''ac'')
   \<and> compareImages demoLib ''ab'' ''ac'' = Inr (0, None)
   \<and> compareImages demoLib ''ab'' ''ab'' = Inr (0, None)
   \<and> png_Decode demoLib ''xbc'' = Inr (demoImage ''xbc'')
   \<and> png_Decode demoLib ''abc'' = Inr (demoImage ''abc'')
   \<and> compareImages demoLib ''xbc'' ''abc'' = Inr (1 / 3, Some ''diff'')
   \<and> sampledDiffer (demoImage ''xbc'') (demoImage ''abc'')"
proof -
  have h: "png_Decode demoLib ''ab'' = Inr (demoImage ''ab'')"
    "png_Decode demoLib ''ac'' = Inr (demoImage ''ac'')"
    "png_Decode demoLib ''xbc'' = Inr (demoImage ''xbc'')"
    "png_Decode demoLib ''abc'' = Inr (demoImage ''abc'')"
    by (simp_all add: demoDecode_image)
  have b: "Bounds (demoImage ''ab'') = Bounds (demoImage ''ac'')" by (simp add: demoImage_def)
  note t1 = sampled_equal_no_difference [of demoLib "''ab''" "demoImage ''ab''" "''ac''" "demoImage ''ac''"]
  note t2 = sampled_equal_no_difference [of demoLib "''xbc''" "demoImage ''xbc''" "''abc''"
      "demoImage ''abc''" "1 / 3" "''diff''"]
  have c1: "compareImages demoLib ''ab'' ''ac'' = Inr (0, None)"
    using t1 [THEN conjunct1] h b demo_sample_ab_ac by simp
  have c2: "compareImages demoLib ''ab'' ''ab'' = Inr (0, None)"
    using t1 [THEN conjunct2, THEN conjunct1] h by simp
  have c4: "sampledDiffer (demoImage ''xbc'') (demoImage ''abc'')"
    using t2 [THEN conjunct2, THEN conjunct2, THEN conjunct2] h demo_compare_xbc by simp
  show ?thesis using h b c1 c2 c4 demo_sample_ab_ac demo_compare_xbc by simp
qed

theorem different_bounds_full_difference_witness:
  "png_Decode demoLib ''ab'' = Inr (demoImage ''ab'')
   \<and> png_Decode demoLib ''abc'' = Inr (demoImage ''abc'')
   \<and> Bounds (demoImage ''ab'') \<noteq> Bounds (demoImage ''abc'')
   \<and> compareImages demoLib ''ab'' ''abc'' = Inr (1, None)"
proof -
  have h1: "png_Decode demoLib ''ab'' = Inr (demoImage ''ab'')" by (simp add: demoDecode_image)
  have h2: "png_Decode demoLib ''abc'' = Inr (demoImage ''abc'')" by (simp add: demoDecode_image)
  have h3: "Bounds (demoImage ''ab'') \<noteq> Bounds (demoImage ''abc'')" by (simp add: demoImage_def)
  show ?thesis
    using different_bounds_full_difference [OF h1 h2 h3, THEN conjunct1] h1 h2 h3 by simp
qed

lemma demo_path:
  "screenshotPath ''home.png'' ''t'' (runnerWith p d) = ''__screenshots__/home.png''"
  by (simp add: demo_defs2)

theorem mismatch_writes_artifacts_witness:
  "os_MkdirAll (ScreenshotDir (config (runnerWith ''__screenshots__/home.png'' ''xbc'')))
       (disk (runnerWith ''__screenshots__/home.png'' ''xbc'')) = None
   \<and> FullScreenshot demoLib 0 = (Inr ''abc'', [], 1)
   \<and> os_Stat ''__screenshots__/home.png'' (disk (runnerWith ''__screenshots__/home.png'' ''xbc''))
   \<and> os_ReadFile ''__screenshots__/home.png'' (disk (runnerWith ''__screenshots__/home.png'' ''xbc''))
        = Inr ''xbc''
   \<and> compareImages demoLib ''xbc'' ''abc'' = Inr (1 / 3, Some ''diff'')
   \<and> 1 / 3 > ScreenshotThreshold (config (runnerWith ''__screenshots__/home.png'' ''xbc''))
   \<and> fst (takeScreenshot demoLib ''home.png'' ''t'' 0 (runnerWith ''__screenshots__/home.png'' ''xbc''))
        = Some (ScreenshotDiffers (1 / 3 * 100) 0 ''__screenshots__/home.png'')
   \<and> files (disk (runnerAfter (takeScreenshot demoLib ''home.png'' ''t'' 0
                (runnerWith ''__screenshots__/home.png'' ''xbc''))))
         ''__screenshots__/home.actual.png'' = Some ''abc''
   \<and> files (disk (runnerAfter (takeScreenshot demoLib ''home.png'' ''t'' 0
                (runnerWith ''__screenshots__/home.png'' ''xbc''))))
         ''__screenshots__/home.diff.png'' = Some ''diff''"
proof -
  let ?r = "runnerWith ''__screenshots__/home.png'' ''xbc''"
  have h1: "os_MkdirAll (ScreenshotDir (config ?r)) (disk ?r) = None" by (simp add: demo_defs2)
  have h2: "FullScreenshot demoLib 0 = (Inr ''abc'', [], 1)" by (simp add: demo_defs2)
  have h3: "os_Stat (screenshotPath ''home.png'' ''t'' ?r) (disk ?r)" by (simp add: demo_defs2)
  have h4: "os_ReadFile (screenshotPath ''home.png'' ''t'' ?r) (disk ?r) = Inr ''xbc''"
    by (simp add: demo_defs2)
  have h6: "1 / 3 > ScreenshotThreshold (config ?r)" by (simp add: demo_defs2)
  have w: "writeErr (disk ?r) p = None" for p by (simp add: demo_defs2)
  have t: "ScreenshotThreshold (config ?r) = 0" by (simp add: demo_defs2)
  note c = mismatch_writes_artifacts [OF h1 h2 h3 h4 demo_compare_xbc h6]
  show ?thesis
    using c h1 h2 h3 h4 h6 demo_compare_xbc
    by (simp add: demo_path demo_stem w t os_WriteFile_def)
qed

text \<open>
  Claim C7 as stated fails when the bounds of baseline and capture differ: the difference
  is 1, above the threshold 0, the capture is written, and no diff file is.
\<close>

theorem mismatch_without_diff_image_counterexample:
  "os_Stat ''__screenshots__/home.png'' (disk (runnerWith ''__screenshots__/home.png'' ''ab''))
   \<and> compareImages demoLib ''ab'' ''abc'' = Inr (1, None)
   \<and> 1 > ScreenshotThreshold (config (runnerWith ''__screenshots__/home.png'' ''ab''))
   \<and> fst (takeScreenshot demoLib ''home.png'' ''t'' 0 (runnerWith ''__screenshots__/home.png'' ''ab''))
        = Some (ScreenshotDiffers 100 0 ''__screenshots__/home.png'')
   \<and> files (disk (runnerAfter (takeScreenshot demoLib ''home.png'' ''t'' 0
                (runnerWith ''__screenshots__/home.png'' ''ab''))))
         ''__screenshots__/home.actual.png'' = Some ''abc''
   \<and> files (disk (runnerAfter (takeScreenshot demoLib ''home.png'' ''t'' 0
                (runnerWith ''__screenshots__/home.png'' ''ab''))))
         ''__screenshots__/home.diff.png'' = None"
proof -
  let ?r = "runnerWith ''__screenshots__/home.png'' ''ab''"
  have c: "compareImages demoLib ''ab'' ''abc'' = Inr (1, None)" by (rule demo_compare_bounds)
  have f: "FullScreenshot demoLib 0 = (Inr ''abc'', [], 1)" by (simp add: demo_defs2)
  have r: "screenshotFilename ''home.png'' ''t'' ?r = (''home.png'', ?r)"
    by (simp add: screenshotFilename_def)
  have d: "disk ?r = diskWith ''__screenshots__/home.png'' ''ab''"
    "ScreenshotDir (config ?r) = ''__screenshots__''" "ScreenshotThreshold (config ?r) = 0"
    by (simp_all add: runnerWith_def Start_def NewRunner_def Let_def defaultConfig_def)
  show ?thesis
    by (simp add: takeScreenshot_def r d c f demo_stem runnerAfter_def diskWith_def demoDisk_def
        os_MkdirAll_def os_Stat_def os_ReadFile_def os_WriteFile_def Let_def)
qed

section \<open>The step loop stops at the first failing step\<close>

text \<open>
  No step changes the configuration, the started browser, the tests or the results of the
  runner: steps touch the counters and the disk only.
\<close>

lemma takeScreenshot_frame:
  assumes "takeScreenshot lib filename testName b r = (e, evs, b', r')"
  shows "config r' = config r \<and> allocStarted r' = allocStarted r \<and> tests r' = tests r
         \<and> results r' = results r"
  using assms
  by (auto simp: takeScreenshot_def screenshotFilename_def Let_def
      split: prod.splits option.splits sum.splits if_splits)

lemma takeSnapshot_frame:
  assumes "takeSnapshot lib filename testName b r = (e, evs, b', r')"
  shows "config r' = config r \<and> allocStarted r' = allocStarted r \<and> tests r' = tests r
         \<and> results r' = results r"
  using assms
  by (auto simp: takeSnapshot_def snapshotFilename_def Let_def
      split: prod.splits option.splits sum.splits if_splits)

lemma executeStep_frame:
  assumes "executeStep lib stp testName b r = (e, evs, b', r')"
  shows "config r' = config r \<and> allocStarted r' = allocStarted r \<and> tests r' = tests r
         \<and> results r' = results r"
proof (cases "Action stp = ''screenshot''")
  case True
  then show ?thesis using assms takeScreenshot_frame by (simp add: executeStep_def)
next
  case False
  note ns = this
  show ?thesis
  proof (cases "Action stp = ''snapshot''")
    case True
    then show ?thesis using assms ns takeSnapshot_frame by (simp add: executeStep_def)
  next
    case False
    then show ?thesis using assms ns
      by (simp add: executeStep_def split: if_splits prod.splits)
  qed
qed

lemma runSteps_frame:
  "runSteps lib testName steps (errs, b, r) = (e, errs', b', r') \<Longrightarrow>
     config r' = config r \<and> allocStarted r' = allocStarted r \<and> tests r' = tests r
     \<and> results r' = results r"
proof (induction steps arbitrary: errs b r)
  case Nil
  then show ?case by simp
next
  case (Cons stp rest)
  obtain e1 evs b1 r1 where ex: "executeStep lib stp testName b r = (e1, evs, b1, r1)"
    by (cases "executeStep lib stp testName b r") auto
  note fr = executeStep_frame [OF ex]
  show ?case
  proof (cases e1)
    case None
    then have "runSteps lib testName rest (foldl (consoleListener (config r)) errs evs, b1, r1)
        = (e, errs', b', r')"
      using Cons.prems ex by simp
    then show ?thesis using Cons.IH fr by metis
  next
    case (Some err)
    then show ?thesis using Cons.prems ex fr by simp
  qed
qed

text \<open>
  The loop over a list of steps is the loop over a prefix followed, when no step of the
  prefix fails, by the loop over the rest: the steps run in their listed order, and nothing
  runs after a step that fails.
\<close>

lemma runSteps_append:
  "runSteps lib testName (xs @ ys) st =
     (case runSteps lib testName xs st of
        (Some err, st') \<Rightarrow> (Some err, st')
      | (None, st') \<Rightarrow> runSteps lib testName ys st')"
proof (induction xs arbitrary: st)
  case Nil
  then show ?case by simp
next
  case (Cons stp rest)
  obtain errs b r where st: "st = (errs, b, r)" by (cases st) auto
  show ?case
    unfolding st using Cons.IH
    by (simp split: prod.splits option.splits)
qed

text \<open>The three ways \<open>runTest\<close> returns.\<close>

lemma runTest_ran:
  assumes "allocStarted r" and "NavigateBlank lib (NewContext lib) = (None, b0)"
    and "runSteps lib (Name test) (Steps test) ([], b0, r) = (stepErr, errs, b', r')"
  shows "runTest lib test r =
           (verdict (config r) (Name test) stepErr errs (Now lib b' - Now lib (NewContext lib)), r')"
  using assms
  by (cases stepErr) (auto simp: runTest_def verdict_def Let_def)

lemma runTest_not_started:
  "\<not> allocStarted r \<Longrightarrow>
     runTest lib test r =
       (\<lparr>rName = Name test, Passed = False, Error = Some BrowserNotStarted, Duration = 0, Errors = []\<rparr>, r)"
  by (simp add: runTest_def Let_def)

lemma runTest_init_failed:
  "allocStarted r \<Longrightarrow> NavigateBlank lib (NewContext lib) = (Some err, b0) \<Longrightarrow>
     runTest lib test r =
       (\<lparr>rName = Name test, Passed = False, Error = Some (InitFailed err), Duration = 0, Errors = []\<rparr>, r)"
  by (simp add: runTest_def Let_def)

lemma runTest_cases:
  obtains "\<not> allocStarted r"
  | err b0 where "allocStarted r" "NavigateBlank lib (NewContext lib) = (Some err, b0)"
  | b0 stepErr errs b' r' where "allocStarted r" "NavigateBlank lib (NewContext lib) = (None, b0)"
      "runSteps lib (Name test) (Steps test) ([], b0, r) = (stepErr, errs, b', r')"
proof (cases "allocStarted r")
  case False
  then show ?thesis using that(1) by simp
next
  case True
  obtain ie b0 where i: "NavigateBlank lib (NewContext lib) = (ie, b0)"
    by (cases "NavigateBlank lib (NewContext lib)") auto
  show ?thesis
  proof (cases ie)
    case None
    obtain stepErr errs b' r' where
      "runSteps lib (Name test) (Steps test) ([], b0, r) = (stepErr, errs, b', r')"
      by (cases "runSteps lib (Name test) (Steps test) ([], b0, r)") auto
    then show ?thesis using that(3) True i None by simp
  next
    case (Some err)
    then show ?thesis using that(2) True i by simp
  qed
qed

lemma runTest_verdict_invariant:
  "(Error (fst (runTest lib test r)) \<noteq> None \<longrightarrow> \<not> Passed (fst (runTest lib test r)))
   \<and> (FailOnConsoleError (config r) \<and> Errors (fst (runTest lib test r)) \<noteq> []
        \<longrightarrow> \<not> Passed (fst (runTest lib test r)))
   \<and> rName (fst (runTest lib test r)) = Name test"
proof (cases rule: runTest_cases [where r = r and lib = lib and test = test])
  case 1
  then show ?thesis by (simp add: runTest_not_started)
next
  case (2 err b0)
  then show ?thesis by (simp add: runTest_init_failed)
next
  case (3 b0 stepErr errs b' r')
  then show ?thesis
    by (cases stepErr) (simp_all add: runTest_ran verdict_def)
qed

lemma click_browserAction: "Action (click sel) \<in> set browserActions"
  by (simp add: click_def browserActions_def)

lemma executeStep_click:
  "executeStep lib (click sel) testName b r =
     (case BrowserAction lib (click sel) b of (err, evs, b') \<Rightarrow> (err, evs, b', r))"
  using click_browserAction [of sel]
  by (simp add: executeStep_def) (simp add: click_def)

lemma demo_click:
  "executeStep demoLib (click sel) testName b r =
     (if sel = ''#missing'' then Some (BrowserError ''not found'') else None,
      if sel = ''#noisy''
      then [\<lparr>ev_type = ''error'', ev_args = [Some ''boom''], ev_now = int b, ev_location = ''about:blank''\<rparr>]
      else [],
      Suc b, r)"
  by (simp add: executeStep_click) (simp add: demoLib_def click_def)

lemma demo_started: "allocStarted demoRunner" "config demoRunner = defaultConfig"
  by (simp_all add: demoRunner_def Start_def NewRunner_def Let_def defaultConfig_def)

lemma demo_navigate: "NavigateBlank demoLib (NewContext demoLib) = (None, 1)"
  "Now demoLib = int" "NewContext demoLib = 0"
  by (simp_all add: demoLib_def)

text \<open>
  Claim C1. The step loop executes the steps of a test in their listed order and stops at
  the first step whose execution returns an error. For a started runner whose session
  initialises, a test whose steps are \<open>pre @ s # post\<close>, where the loop over \<open>pre\<close> ends
  without an error and \<open>s\<close> then returns the error \<open>e\<close>: the loop over all the steps ends
  with \<open>e\<close> in the state \<open>s\<close> leaves; the result has \<open>Passed = False\<close> and \<open>Error = e\<close>; its
  duration is measured in the session as \<open>s\<close> leaves it; the runner is the one \<open>s\<close> leaves;
  the steps \<open>post\<close> do not run, since the test cut after \<open>s\<close> gives the same result
  and the same runner. Sibling tests are unaffected: the worker that takes the test from
  the queue holds this result, and the rest of the queue, the tests not yet sent, the other
  workers, the results sent and collected are as they were.
\<close>

theorem fail_fast:
  assumes "allocStarted r" and "NavigateBlank lib (NewContext lib) = (None, b0)"
    and "Steps test = pre @ s # post"
    and "runSteps lib (Name test) pre ([], b0, r) = (None, errs1, b1, r1)"
    and "executeStep lib s (Name test) b1 r1 = (Some e, evs, b2, r2)"
  shows "runSteps lib (Name test) (Steps test) ([], b0, r)
           = (Some e, foldl (consoleListener (config r)) errs1 evs, b2, r2)
         \<and> Passed (fst (runTest lib test r)) = False
         \<and> Error (fst (runTest lib test r)) = Some e
         \<and> Duration (fst (runTest lib test r)) = Now lib b2 - Now lib (NewContext lib)
         \<and> snd (runTest lib test r) = r2
         \<and> runTest lib test r = runTest lib (test\<lparr>Steps := pre @ [s]\<rparr>) r
         \<and> (\<forall>p i rest. i < length (workers p) \<and> workers p ! i = Idle
                \<and> testChan p = test # rest \<and> runner p = r \<longrightarrow>
              step lib (WorkerReceive i) p
                = Some (p\<lparr>testChan := rest,
                         workers := (workers p)[i := Holding (fst (runTest lib test r))],
                         runner := r2\<rparr>))"
proof -
  have c: "config r1 = config r" using runSteps_frame [OF assms(4)] by simp
  have one: "runSteps lib (Name test) (s # ys) (errs1, b1, r1)
               = (Some e, foldl (consoleListener (config r)) errs1 evs, b2, r2)" for ys
    using assms(5) c by simp
  have run: "runSteps lib (Name test) (pre @ s # ys) ([], b0, r)
               = (Some e, foldl (consoleListener (config r)) errs1 evs, b2, r2)" for ys
    by (simp add: runSteps_append assms(4) one del: runSteps.simps)
  have full: "runSteps lib (Name test) (Steps test) ([], b0, r)
               = (Some e, foldl (consoleListener (config r)) errs1 evs, b2, r2)"
    using run [of post] assms(3) by simp
  have cut: "runSteps lib (Name (test\<lparr>Steps := pre @ [s]\<rparr>)) (Steps (test\<lparr>Steps := pre @ [s]\<rparr>)) ([], b0, r)
               = (Some e, foldl (consoleListener (config r)) errs1 evs, b2, r2)"
    using run [of "[]"] by simp
  have rt: "runTest lib test r =
      (verdict (config r) (Name test) (Some e) (foldl (consoleListener (config r)) errs1 evs)
         (Now lib b2 - Now lib (NewContext lib)), r2)"
    using runTest_ran [OF assms(1,2) full] .
  have rt': "runTest lib (test\<lparr>Steps := pre @ [s]\<rparr>) r =
      (verdict (config r) (Name test) (Some e) (foldl (consoleListener (config r)) errs1 evs)
         (Now lib b2 - Now lib (NewContext lib)), r2)"
    using runTest_ran [OF assms(1,2) cut] by simp
  have pool: "\<forall>p i rest. i < length (workers p) \<and> workers p ! i = Idle
                \<and> testChan p = test # rest \<and> runner p = r \<longrightarrow>
              step lib (WorkerReceive i) p
                = Some (p\<lparr>testChan := rest,
                         workers := (workers p)[i := Holding (fst (runTest lib test r))],
                         runner := r2\<rparr>)"
    by (simp add: rt)
  show ?thesis
    using full pool by (simp add: rt rt' verdict_def)
qed

text \<open>
  On the toy browser: the second of three steps fails, the result carries its error, and
  the duration counts the three calls made (the session, the first and the second step).
\<close>

theorem fail_fast_witness:
  "Passed (fst (runTest demoLib failingTest demoRunner)) = False
   \<and> Error (fst (runTest demoLib failingTest demoRunner)) = Some (BrowserError ''not found'')
   \<and> Duration (fst (runTest demoLib failingTest demoRunner)) = 3
   \<and> runTest demoLib failingTest demoRunner
       = runTest demoLib (failingTest\<lparr>Steps := [click ''#ok'', click ''#missing'']\<rparr>) demoRunner"
proof -
  have a: "Steps failingTest = [click ''#ok''] @ click ''#missing'' # [click ''#later'']"
    by (simp add: failingTest_def)
  have b: "runSteps demoLib (Name failingTest) [click ''#ok''] ([], 1, demoRunner)
             = (None, [], 2, demoRunner)"
    by (simp add: demo_click)
  have c: "executeStep demoLib (click ''#missing'') (Name failingTest) 2 demoRunner
             = (Some (BrowserError ''not found''), [], 3, demoRunner)"
    by (simp add: demo_click)
  note f = fail_fast [OF demo_started(1) demo_navigate(1) a b c]
  have d: "Duration (fst (runTest demoLib failingTest demoRunner)) = 3"
    using f [THEN conjunct2, THEN conjunct2, THEN conjunct2, THEN conjunct1]
    by (simp add: demo_navigate)
  have eq: "runTest demoLib failingTest demoRunner
       = runTest demoLib (failingTest\<lparr>Steps := [click ''#ok'', click ''#missing'']\<rparr>) demoRunner"
    using f [THEN conjunct2, THEN conjunct2, THEN conjunct2, THEN conjunct2, THEN conjunct2,
        THEN conjunct1]
    by simp
  show ?thesis
    using f [THEN conjunct2, THEN conjunct1] f [THEN conjunct2, THEN conjunct2, THEN conjunct1]
      d eq
    by (intro conjI)
qed

section \<open>Console errors and the verdict of a test\<close>








section \<open>Run returns one result for every test\<close>

text \<open>
  Every transition of the pool keeps the invariant and takes one from the number of
  transitions left; a pool that has not returned can make a transition; and a pool that has
  returned has collected the result of every test.
\<close>

lemma sum_list_map_update:
  fixes f :: "'a \<Rightarrow> 'b::comm_monoid_add"
  shows "i < length ws \<Longrightarrow>
    sum_list (map f (ws[i := w])) + f (ws ! i) = sum_list (map f ws) + f w"
proof (induction ws arbitrary: i)
  case Nil
  then show ?case by simp
next
  case (Cons a ws)
  show ?case
  proof (cases i)
    case 0
    then show ?thesis by (simp add: ac_simps)
  next
    case (Suc j)
    then have "j < length ws" using Cons.prems by simp
    from Cons.IH [OF this] show ?thesis using Suc
      by (simp add: add.assoc)
  qed
qed

lemma runTest_results: "results (snd (runTest lib test r)) = results r"
proof (cases rule: runTest_cases [where r = r and lib = lib and test = test])
  case 1
  then show ?thesis by (simp add: runTest_not_started)
next
  case (2 err b0)
  then show ?thesis by (simp add: runTest_init_failed)
next
  case (3 b0 stepErr errs b' r')
  then show ?thesis using runSteps_frame [OF 3(3)] by (simp add: runTest_ran)
qed

lemma runTest_rName: "rName (fst (runTest lib test r)) = Name test"
  using runTest_verdict_invariant [of lib test r] by simp

lemma init_remaining: "remaining (Run_init W r) = 4 * length (tests r) + W + 3"
  by (simp add: remaining_def Run_init_def map_replicate_const sum_list_replicate)

lemma init_inv: "pool_inv W (mset (map Name (tests r))) (Run_init W r)"
proof -
  have "sum_list (map heldName (replicate W Idle)) = {#}"
    by (induction W) simp_all
  then show ?thesis
    by (simp add: pool_inv_def Run_init_def accounted_def)
qed

lemma step_remaining:
  assumes "step lib a p = Some p'"
  shows "remaining p = Suc (remaining p')"
proof (cases a)
  case MainSend
  then show ?thesis using assms
    by (auto simp: remaining_def split: list.splits if_splits)
next
  case MainClose
  then show ?thesis using assms
    by (auto simp: remaining_def split: if_splits)
next
  case (WorkerReceive i)
  then obtain test rest where g: "i < length (workers p)" "workers p ! i = Idle"
    "testChan p = test # rest"
    and p': "p' = p\<lparr>testChan := rest,
        workers := (workers p)[i := Holding (fst (runTest lib test (runner p)))],
        runner := snd (runTest lib test (runner p))\<rparr>"
    using assms by (auto split: list.splits if_splits prod.splits)
  have "sum_list (map weight ((workers p)[i := Holding (fst (runTest lib test (runner p)))])) + 1
      = sum_list (map weight (workers p)) + 3"
    using sum_list_map_update [OF g(1), of weight "Holding (fst (runTest lib test (runner p)))"] g(2)
    by simp
  then show ?thesis using g by (simp add: remaining_def p')
next
  case (WorkerSend i)
  then obtain result where g: "i < length (workers p)" "workers p ! i = Holding result"
    and p': "p' = p\<lparr>resultChan := resultChan p @ [result], workers := (workers p)[i := Idle]\<rparr>"
    using assms by (auto split: worker.splits if_splits)
  have "sum_list (map weight ((workers p)[i := Idle])) + 3 = sum_list (map weight (workers p)) + 1"
    using sum_list_map_update [OF g(1), of weight Idle] g(2) by simp
  then show ?thesis by (simp add: remaining_def p')
next
  case (WorkerExit i)
  then have g: "i < length (workers p)" "workers p ! i = Idle"
    and p': "p' = p\<lparr>workers := (workers p)[i := Exited]\<rparr>"
    using assms by (auto split: if_splits)
  have "sum_list (map weight ((workers p)[i := Exited])) + 1 = sum_list (map weight (workers p))"
    using sum_list_map_update [OF g(1), of weight Exited] g(2) by simp
  then show ?thesis by (simp add: remaining_def p')
next
  case CloseResults
  then show ?thesis using assms
    by (auto simp: remaining_def split: if_splits)
next
  case MainCollect
  then show ?thesis using assms
    by (auto simp: remaining_def split: list.splits if_splits)
next
  case MainReturn
  then show ?thesis using assms
    by (auto simp: remaining_def split: if_splits)
qed

lemma exec_remaining:
  "exec lib acts p = Some p' \<Longrightarrow> remaining p = length acts + remaining p'"
proof (induction acts arbitrary: p)
  case Nil
  then show ?case by simp
next
  case (Cons a acts)
  then obtain q where q: "step lib a p = Some q" "exec lib acts q = Some p'"
    by (auto split: option.splits)
  show ?case using step_remaining [OF q(1)] Cons.IH [OF q(2)] by simp
qed

lemma pool_invD:
  assumes "pool_inv W names p"
  shows "length (workers p) = W" and "capacity p = size names" and "accounted p = names"
    and "testChanClosed p \<Longrightarrow> toSend p = []"
    and "Exited \<in> set (workers p) \<Longrightarrow> testChanClosed p \<and> testChan p = []"
    and "resultChanClosed p \<Longrightarrow> testChanClosed p \<and> (\<forall>w \<in> set (workers p). w = Exited)"
    and "returned p \<Longrightarrow> resultChanClosed p \<and> resultChan p = []"
  using assms unfolding pool_inv_def by blast+

lemma pool_invI:
  assumes "length (workers p) = W" and "capacity p = size names" and "accounted p = names"
    and "testChanClosed p \<Longrightarrow> toSend p = []"
    and "Exited \<in> set (workers p) \<Longrightarrow> testChanClosed p \<and> testChan p = []"
    and "resultChanClosed p \<Longrightarrow> testChanClosed p \<and> (\<forall>w \<in> set (workers p). w = Exited)"
    and "returned p \<Longrightarrow> resultChanClosed p \<and> resultChan p = []"
  shows "pool_inv W names p"
  using assms unfolding pool_inv_def by blast

lemma open_pool:
  assumes "pool_inv W names p" and "w \<in> set (workers p)" and "w \<noteq> Exited"
  shows "\<not> resultChanClosed p" and "\<not> returned p"
  using pool_invD(6,7) [OF assms(1)] assms(2,3) by blast+

lemma step_inv_MainSend:
  assumes "pool_inv W names p" and "step lib MainSend p = Some p'"
  shows "pool_inv W names p'"
proof -
  obtain t rest where t: "toSend p = t # rest"
    and p': "p' = p\<lparr>toSend := rest, testChan := testChan p @ [t]\<rparr>"
    using assms(2) by (cases "toSend p") (simp_all split: if_splits)
  note I = pool_invD [OF assms(1)]
  have nc: "\<not> testChanClosed p" using I(4) t by auto
  have ne: "Exited \<notin> set (workers p)" using I(5) nc by auto
  have nr: "\<not> resultChanClosed p" using I(6) nc by auto
  have nt: "\<not> returned p" using I(7) nr by auto
  have acc: "accounted p' = accounted p" by (simp add: accounted_def p' t)
  show ?thesis
  proof (rule pool_invI)
    show "length (workers p') = W" using I(1) by (simp add: p')
    show "capacity p' = size names" using I(2) by (simp add: p')
    show "accounted p' = names" using I(3) acc by simp
    show "testChanClosed p' \<Longrightarrow> toSend p' = []" using nc by (simp add: p')
    show "Exited \<in> set (workers p') \<Longrightarrow> testChanClosed p' \<and> testChan p' = []"
      using ne by (simp add: p')
    show "resultChanClosed p' \<Longrightarrow> testChanClosed p' \<and> (\<forall>w \<in> set (workers p'). w = Exited)"
      using nr by (simp add: p')
    show "returned p' \<Longrightarrow> resultChanClosed p' \<and> resultChan p' = []"
      using nt by (simp add: p')
  qed
qed

lemma step_inv_MainClose:
  assumes "pool_inv W names p" and "step lib MainClose p = Some p'"
  shows "pool_inv W names p'"
proof -
  have g: "toSend p = []" "\<not> testChanClosed p" and p': "p' = p\<lparr>testChanClosed := True\<rparr>"
    using assms(2) by (simp_all split: if_splits)
  note I = pool_invD [OF assms(1)]
  have ne: "Exited \<notin> set (workers p)" using I(5) g(2) by auto
  have nr: "\<not> resultChanClosed p" using I(6) g(2) by auto
  have nt: "\<not> returned p" using I(7) nr by auto
  have acc: "accounted p' = accounted p" by (simp add: accounted_def p')
  show ?thesis
  proof (rule pool_invI)
    show "length (workers p') = W" using I(1) by (simp add: p')
    show "capacity p' = size names" using I(2) by (simp add: p')
    show "accounted p' = names" using I(3) acc by simp
    show "testChanClosed p' \<Longrightarrow> toSend p' = []" using g(1) by (simp add: p')
    show "Exited \<in> set (workers p') \<Longrightarrow> testChanClosed p' \<and> testChan p' = []"
      using ne by (simp add: p')
    show "resultChanClosed p' \<Longrightarrow> testChanClosed p' \<and> (\<forall>w \<in> set (workers p'). w = Exited)"
      using nr by (simp add: p')
    show "returned p' \<Longrightarrow> resultChanClosed p' \<and> resultChan p' = []"
      using nt by (simp add: p')
  qed
qed

lemma step_inv_WorkerReceive:
  assumes "pool_inv W names p" and "step lib (WorkerReceive i) p = Some p'"
  shows "pool_inv W names p'"
proof -
  have g: "i < length (workers p)" "workers p ! i = Idle"
    using assms(2) by (simp_all split: if_splits)
  obtain test rest where t: "testChan p = test # rest"
    using assms(2) g by (cases "testChan p") simp_all
  define res where "res = fst (runTest lib test (runner p))"
  define r' where "r' = snd (runTest lib test (runner p))"
  have p': "p' = p\<lparr>testChan := rest, workers := (workers p)[i := Holding res], runner := r'\<rparr>"
    using assms(2) g t by (simp add: res_def r'_def split: prod.splits)
  note I = pool_invD [OF assms(1)]
  have n: "rName res = Name test" by (simp add: res_def runTest_rName)
  have rs: "results r' = results (runner p)" by (simp add: r'_def runTest_results)
  have h: "sum_list (map heldName ((workers p)[i := Holding res]))
      = sum_list (map heldName (workers p)) + {#Name test#}"
    using sum_list_map_update [OF g(1), of heldName "Holding res"] g(2) n by simp
  have idle: "Idle \<in> set (workers p)" using g nth_mem by metis
  have ne: "Exited \<notin> set (workers p)" using I(5) t by auto
  have ne': "Exited \<notin> set ((workers p)[i := Holding res])"
  proof
    assume "Exited \<in> set ((workers p)[i := Holding res])"
    then have "Exited \<in> insert (Holding res) (set (workers p))"
      using set_update_subset_insert [of "workers p" i "Holding res"] by (rule rev_subsetD)
    then show False using ne by simp
  qed
  have nr: "\<not> resultChanClosed p" and nt: "\<not> returned p"
    using open_pool [OF assms(1) idle] by simp_all
  have acc: "accounted p' = accounted p" by (simp add: accounted_def p' t h rs)
  show ?thesis
  proof (rule pool_invI)
    show "length (workers p') = W" using I(1) by (simp add: p')
    show "capacity p' = size names" using I(2) by (simp add: p')
    show "accounted p' = names" using I(3) acc by simp
    show "testChanClosed p' \<Longrightarrow> toSend p' = []" using I(4) by (simp add: p')
    show "Exited \<in> set (workers p') \<Longrightarrow> testChanClosed p' \<and> testChan p' = []"
      using ne' by (simp add: p')
    show "resultChanClosed p' \<Longrightarrow> testChanClosed p' \<and> (\<forall>w \<in> set (workers p'). w = Exited)"
      using nr by (simp add: p')
    show "returned p' \<Longrightarrow> resultChanClosed p' \<and> resultChan p' = []"
      using nt by (simp add: p')
  qed
qed

lemma step_inv_WorkerSend:
  assumes "pool_inv W names p" and "step lib (WorkerSend i) p = Some p'"
  shows "pool_inv W names p'"
proof -
  have g1: "i < length (workers p)" using assms(2) by (simp split: if_splits)
  obtain result where g2: "workers p ! i = Holding result"
    using assms(2) g1 by (cases "workers p ! i") simp_all
  have p': "p' = p\<lparr>resultChan := resultChan p @ [result], workers := (workers p)[i := Idle]\<rparr>"
    using assms(2) g1 g2 by (simp split: if_splits)
  note I = pool_invD [OF assms(1)]
  have h: "sum_list (map heldName (workers p))
      = sum_list (map heldName ((workers p)[i := Idle])) + {#rName result#}"
    using sum_list_map_update [OF g1, of heldName Idle] g2 by simp
  have hold: "Holding result \<in> set (workers p)" using g1 g2 nth_mem by metis
  have nr: "\<not> resultChanClosed p" and nt: "\<not> returned p"
    using open_pool [OF assms(1) hold] by simp_all
  have ex: "Exited \<in> set (workers p)" if e: "Exited \<in> set ((workers p)[i := Idle])"
  proof -
    have "Exited \<in> insert Idle (set (workers p))"
      using e set_update_subset_insert [of "workers p" i Idle] by (rule rev_subsetD)
    then show ?thesis by simp
  qed
  have acc: "accounted p' = accounted p"
    unfolding accounted_def h by (simp add: p')
  show ?thesis
  proof (rule pool_invI)
    show "length (workers p') = W" using I(1) by (simp add: p')
    show "capacity p' = size names" using I(2) by (simp add: p')
    show "accounted p' = names" using I(3) acc by simp
    show "testChanClosed p' \<Longrightarrow> toSend p' = []" using I(4) by (simp add: p')
    show "Exited \<in> set (workers p') \<Longrightarrow> testChanClosed p' \<and> testChan p' = []"
      using I(5) ex by (simp add: p')
    show "resultChanClosed p' \<Longrightarrow> testChanClosed p' \<and> (\<forall>w \<in> set (workers p'). w = Exited)"
      using nr by (simp add: p')
    show "returned p' \<Longrightarrow> resultChanClosed p' \<and> resultChan p' = []"
      using nt by (simp add: p')
  qed
qed

lemma step_inv_WorkerExit:
  assumes "pool_inv W names p" and "step lib (WorkerExit i) p = Some p'"
  shows "pool_inv W names p'"
proof -
  have g: "i < length (workers p)" "workers p ! i = Idle" "testChan p = []" "testChanClosed p"
    and p': "p' = p\<lparr>workers := (workers p)[i := Exited]\<rparr>"
    using assms(2) by (simp_all split: if_splits)
  note I = pool_invD [OF assms(1)]
  have h: "sum_list (map heldName ((workers p)[i := Exited])) = sum_list (map heldName (workers p))"
    using sum_list_map_update [OF g(1), of heldName Exited] g(2) by simp
  have idle: "Idle \<in> set (workers p)" using g(1,2) nth_mem by metis
  have nr: "\<not> resultChanClosed p" and nt: "\<not> returned p"
    using open_pool [OF assms(1) idle] by simp_all
  have acc: "accounted p' = accounted p" by (simp add: accounted_def p' h)
  show ?thesis
  proof (rule pool_invI)
    show "length (workers p') = W" using I(1) by (simp add: p')
    show "capacity p' = size names" using I(2) by (simp add: p')
    show "accounted p' = names" using I(3) acc by simp
    show "testChanClosed p' \<Longrightarrow> toSend p' = []" using I(4) by (simp add: p')
    show "Exited \<in> set (workers p') \<Longrightarrow> testChanClosed p' \<and> testChan p' = []"
      using g(3,4) by (simp add: p')
    show "resultChanClosed p' \<Longrightarrow> testChanClosed p' \<and> (\<forall>w \<in> set (workers p'). w = Exited)"
      using nr by (simp add: p')
    show "returned p' \<Longrightarrow> resultChanClosed p' \<and> resultChan p' = []"
      using nt by (simp add: p')
  qed
qed

lemma step_inv_CloseResults:
  assumes "pool_inv W names p" and "step lib CloseResults p = Some p'"
  shows "pool_inv W names p'"
proof -
  have g: "testChanClosed p" "\<forall>w \<in> set (workers p). w = Exited" "\<not> resultChanClosed p"
    and p': "p' = p\<lparr>resultChanClosed := True\<rparr>"
    using assms(2) by (simp_all split: if_splits)
  note I = pool_invD [OF assms(1)]
  have nt: "\<not> returned p" using I(7) g(3) by auto
  have acc: "accounted p' = accounted p" by (simp add: accounted_def p')
  show ?thesis
  proof (rule pool_invI)
    show "length (workers p') = W" using I(1) by (simp add: p')
    show "capacity p' = size names" using I(2) by (simp add: p')
    show "accounted p' = names" using I(3) acc by simp
    show "testChanClosed p' \<Longrightarrow> toSend p' = []" using I(4) by (simp add: p')
    show "Exited \<in> set (workers p') \<Longrightarrow> testChanClosed p' \<and> testChan p' = []"
      using I(5) by (simp add: p')
    show "resultChanClosed p' \<Longrightarrow> testChanClosed p' \<and> (\<forall>w \<in> set (workers p'). w = Exited)"
      using g(1,2) by (simp add: p')
    show "returned p' \<Longrightarrow> resultChanClosed p' \<and> resultChan p' = []"
      using nt by (simp add: p')
  qed
qed

lemma step_inv_MainCollect:
  assumes "pool_inv W names p" and "step lib MainCollect p = Some p'"
  shows "pool_inv W names p'"
proof -
  have g: "testChanClosed p" "\<not> returned p" using assms(2) by (simp_all split: if_splits)
  obtain result rest where t: "resultChan p = result # rest"
    using assms(2) g by (cases "resultChan p") simp_all
  have p': "p' = p\<lparr>resultChan := rest,
                    runner := (runner p)\<lparr>results := results (runner p) @ [result]\<rparr>\<rparr>"
    using assms(2) g t by simp
  note I = pool_invD [OF assms(1)]
  have acc: "accounted p' = accounted p" by (simp add: accounted_def p' t)
  show ?thesis
  proof (rule pool_invI)
    show "length (workers p') = W" using I(1) by (simp add: p')
    show "capacity p' = size names" using I(2) by (simp add: p')
    show "accounted p' = names" using I(3) acc by simp
    show "testChanClosed p' \<Longrightarrow> toSend p' = []" using I(4) by (simp add: p')
    show "Exited \<in> set (workers p') \<Longrightarrow> testChanClosed p' \<and> testChan p' = []"
      using I(5) by (simp add: p')
    show "resultChanClosed p' \<Longrightarrow> testChanClosed p' \<and> (\<forall>w \<in> set (workers p'). w = Exited)"
      using I(6) by (simp add: p')
    show "returned p' \<Longrightarrow> resultChanClosed p' \<and> resultChan p' = []"
      using g(2) by (simp add: p')
  qed
qed

lemma step_inv_MainReturn:
  assumes "pool_inv W names p" and "step lib MainReturn p = Some p'"
  shows "pool_inv W names p'"
proof -
  have g: "testChanClosed p" "resultChan p = []" "resultChanClosed p"
    and p': "p' = p\<lparr>returned := True\<rparr>"
    using assms(2) by (simp_all split: if_splits)
  note I = pool_invD [OF assms(1)]
  have acc: "accounted p' = accounted p" by (simp add: accounted_def p')
  show ?thesis
  proof (rule pool_invI)
    show "length (workers p') = W" using I(1) by (simp add: p')
    show "capacity p' = size names" using I(2) by (simp add: p')
    show "accounted p' = names" using I(3) acc by simp
    show "testChanClosed p' \<Longrightarrow> toSend p' = []" using I(4) by (simp add: p')
    show "Exited \<in> set (workers p') \<Longrightarrow> testChanClosed p' \<and> testChan p' = []"
      using I(5) by (simp add: p')
    show "resultChanClosed p' \<Longrightarrow> testChanClosed p' \<and> (\<forall>w \<in> set (workers p'). w = Exited)"
      using I(6) by (simp add: p')
    show "returned p' \<Longrightarrow> resultChanClosed p' \<and> resultChan p' = []"
      using g(2,3) by (simp add: p')
  qed
qed

lemma step_inv:
  assumes "pool_inv W names p" and "step lib a p = Some p'"
  shows "pool_inv W names p'"
proof (cases a)
  case MainSend
  then show ?thesis using assms step_inv_MainSend by metis
next
  case MainClose
  then show ?thesis using assms step_inv_MainClose by metis
next
  case (WorkerReceive i)
  then show ?thesis using assms step_inv_WorkerReceive by metis
next
  case (WorkerSend i)
  then show ?thesis using assms step_inv_WorkerSend by metis
next
  case (WorkerExit i)
  then show ?thesis using assms step_inv_WorkerExit by metis
next
  case CloseResults
  then show ?thesis using assms step_inv_CloseResults by metis
next
  case MainCollect
  then show ?thesis using assms step_inv_MainCollect by metis
next
  case MainReturn
  then show ?thesis using assms step_inv_MainReturn by metis
qed

lemma exec_inv:
  "pool_inv W names p \<Longrightarrow> exec lib acts p = Some p' \<Longrightarrow> pool_inv W names p'"
proof (induction acts arbitrary: p)
  case Nil
  then show ?case by simp
next
  case (Cons a acts)
  then obtain q where q: "step lib a p = Some q" "exec lib acts q = Some p'"
    by (auto split: option.splits)
  show ?case using Cons.IH [OF step_inv [OF Cons.prems(1) q(1)] q(2)] .
qed

lemma accounted_size:
  "size (accounted p) =
     length (toSend p) + length (testChan p) + size (sum_list (map heldName (workers p)))
     + length (resultChan p) + length (results (runner p))"
  by (simp add: accounted_def)

lemma held_size:
  assumes "i < length ws" and "ws ! i = Holding result"
  shows "0 < size (sum_list (map heldName ws))"
proof -
  have "sum_list (map heldName (ws[i := Idle])) + {#rName result#} = sum_list (map heldName ws)"
    using sum_list_map_update [OF assms(1), of heldName Idle] assms(2) by simp
  then have "size (sum_list (map heldName ws)) = size (sum_list (map heldName (ws[i := Idle]))) + 1"
    by (metis size_union size_single)
  then show ?thesis by simp
qed

lemma no_holding_size:
  "\<forall>w \<in> set ws. w = Exited \<Longrightarrow> sum_list (map heldName ws) = {#}"
  by (induction ws) simp_all

lemma all_exited_weight:
  "\<forall>w \<in> set ws. w = Exited \<Longrightarrow> sum_list (map weight ws) = 0"
  by (induction ws) simp_all

lemma progress:
  assumes "pool_inv W names p" and "\<not> returned p"
  shows "\<exists>a. step lib a p \<noteq> None"
proof (rule ccontr)
  assume "\<not> (\<exists>a. step lib a p \<noteq> None)"
  then have stuck: "step lib a p = None" for a by simp
  have cap: "capacity p = size (accounted p)" using pool_invD [OF assms(1)] by simp
  have ts: "toSend p = []"
  proof (rule ccontr)
    assume "toSend p \<noteq> []"
    then obtain t rest where t: "toSend p = t # rest" by (cases "toSend p") auto
    then have "length (testChan p) < capacity p" by (simp add: cap accounted_size)
    then show False using stuck [of MainSend] t by simp
  qed
  have cl: "testChanClosed p" using stuck [of MainClose] ts by (simp split: if_splits)
  have w: "w = Exited" if mem: "w \<in> set (workers p)" for w
  proof -
    obtain i where i: "i < length (workers p)" "workers p ! i = w"
      using mem by (auto simp: in_set_conv_nth)
    show ?thesis
    proof (cases w)
      case Idle
      show ?thesis
      proof (cases "testChan p")
        case Nil
        then show ?thesis using stuck [of "WorkerExit i"] i Idle cl by simp
      next
        case (Cons t rest)
        then show ?thesis using stuck [of "WorkerReceive i"] i Idle
          by (simp split: prod.splits)
      qed
    next
      case (Holding result)
      then have "0 < size (sum_list (map heldName (workers p)))"
        using held_size i by metis
      then have "length (resultChan p) < capacity p" by (simp add: cap accounted_size)
      then show ?thesis using stuck [of "WorkerSend i"] i Holding by simp
    next
      case Exited
      then show ?thesis .
    qed
  qed
  have rc: "resultChanClosed p" using stuck [of CloseResults] cl w by (simp split: if_splits)
  have re: "resultChan p = []"
    using stuck [of MainCollect] cl assms(2) by (simp split: list.splits)
  show False using stuck [of MainReturn] cl rc re assms(2) by simp
qed

lemma returned_all:
  assumes "pool_inv W names p" and "0 < W" and "returned p"
  shows "mset (map rName (results (runner p))) = names \<and> remaining p = 0"
proof -
  have rc: "resultChanClosed p" "resultChan p = []" using assms(1,3) by (simp_all add: pool_inv_def)
  have cl: "testChanClosed p" and ex: "\<forall>w \<in> set (workers p). w = Exited"
    using assms(1) rc(1) by (simp_all add: pool_inv_def)
  have ts: "toSend p = []" using assms(1) cl by (simp add: pool_inv_def)
  have "workers p \<noteq> []" using assms(1,2) by (auto simp: pool_inv_def)
  then have "Exited \<in> set (workers p)" using ex by (cases "workers p") auto
  then have tc: "testChan p = []" using pool_invD [OF assms(1)] by simp
  have "accounted p = names" using pool_invD [OF assms(1)] by simp
  then have "mset (map rName (results (runner p))) = names"
    by (simp add: accounted_def ts tc rc no_holding_size [OF ex])
  moreover have "remaining p = 0"
    using assms(3) by (simp add: remaining_def ts tc rc cl all_exited_weight [OF ex])
  ultimately show ?thesis by simp
qed

text \<open>
  Claim C2. For every list of submitted tests and every number \<open>W\<close> of workers, at least
  one: a run of the pool, under any schedule of its goroutines, makes at most
  \<open>4 * N + W + 3\<close> transitions for \<open>N\<close> tests, so it cannot run forever; as long as \<open>Run\<close>
  has not returned some goroutine can make its next transition, so it does not deadlock, with
  no test as with any number of them; and when \<open>Run\<close> has returned, it has made exactly
  that many transitions, none is left, and \<open>r.results\<close> holds exactly \<open>N\<close> results, one for
  every submitted test: the names of the results are the names of the tests, as multisets,
  in whatever order the schedule gives.
\<close>

theorem Run_collects_every_result:
  assumes "0 < W" and "exec lib schedule (Run_init W r) = Some p"
  shows "length schedule \<le> 4 * length (tests r) + W + 3
         \<and> (\<not> returned p \<longrightarrow> (\<exists>a. step lib a p \<noteq> None))
         \<and> (returned p \<longrightarrow>
              length (results (runner p)) = length (tests r)
              \<and> mset (map rName (results (runner p))) = mset (map Name (tests r))
              \<and> length schedule = 4 * length (tests r) + W + 3
              \<and> (\<forall>a. step lib a p = None))"
proof -
  note inv = exec_inv [OF init_inv assms(2)]
  have rem: "4 * length (tests r) + W + 3 = length schedule + remaining p"
    using exec_remaining [OF assms(2)] by (simp add: init_remaining)
  have 1: "length schedule \<le> 4 * length (tests r) + W + 3" using rem by simp
  have 2: "\<not> returned p \<longrightarrow> (\<exists>a. step lib a p \<noteq> None)" using progress [OF inv, where lib = lib] by simp
  have 3: "returned p \<longrightarrow>
              length (results (runner p)) = length (tests r)
              \<and> mset (map rName (results (runner p))) = mset (map Name (tests r))
              \<and> length schedule = 4 * length (tests r) + W + 3
              \<and> (\<forall>a. step lib a p = None)"
  proof (rule impI)
    assume ret: "returned p"
    note all = returned_all [OF inv assms(1) ret]
    have m: "mset (map rName (results (runner p))) = mset (map Name (tests r))"
      using all by simp
    have "size (mset (map rName (results (runner p)))) = size (mset (map Name (tests r)))"
      using m by simp
    then have l: "length (results (runner p)) = length (tests r)" by simp
    have z: "remaining p = 0" using all by simp
    have "step lib a p = None" for a
    proof (cases "step lib a p")
      case None
      then show ?thesis .
    next
      case (Some q)
      then show ?thesis using step_remaining [OF Some] z by simp
    qed
    then show "length (results (runner p)) = length (tests r)
              \<and> mset (map rName (results (runner p))) = mset (map Name (tests r))
              \<and> length schedule = 4 * length (tests r) + W + 3
              \<and> (\<forall>a. step lib a p = None)" using m l rem z by simp
  qed
  show ?thesis using 1 2 3 by (intro conjI)
qed

text \<open>
  With the four workers of the code and two tests: a schedule on which the second test
  submitted is the first in the results.
\<close>

lemma demo_runTest_empty:
  "allocStarted r \<Longrightarrow>
     runTest demoLib (emptyTest name) r
       = (\<lparr>rName = name, Passed = True, Error = None, Duration = 1, Errors = []\<rparr>, r)"
  by (simp add: runTest_def emptyTest_def demoLib_def Let_def)

lemma demoSuite_facts:
  "tests demoSuite = [emptyTest ''a'', emptyTest ''b'']" "allocStarted demoSuite"
  by (simp_all add: demoSuite_def AddTest_def demoRunner_def Start_def NewRunner_def Let_def)

lemma demo_run:
  "\<exists>p. exec demoLib demoSchedule (Run_init numWorkers demoSuite) = Some p \<and> returned p
       \<and> map rName (results (runner p)) = [''b'', ''a'']"
  by (simp add: demoSchedule_def Run_init_def numWorkers_def demoSuite_facts demo_runTest_empty
      eval_nat_numeral)

theorem Run_collects_every_result_witness:
  "returned (the (Run demoLib demoSchedule demoSuite))
   \<and> map rName (results (runner (the (Run demoLib demoSchedule demoSuite)))) = [''b'', ''a'']
   \<and> length (results (runner (the (Run demoLib demoSchedule demoSuite)))) = length (tests demoSuite)
   \<and> length demoSchedule = 4 * length (tests demoSuite) + numWorkers + 3"
proof -
  obtain p where pp: "exec demoLib demoSchedule (Run_init numWorkers demoSuite) = Some p
      \<and> returned p \<and> map rName (results (runner p)) = [''b'', ''a'']"
    using demo_run ..
  note p = pp [THEN conjunct1] pp [THEN conjunct2, THEN conjunct1]
    pp [THEN conjunct2, THEN conjunct2]
  have w: "0 < numWorkers" by (simp add: numWorkers_def)
  note t = Run_collects_every_result [OF w p(1), THEN conjunct2, THEN conjunct2, rule_format, OF p(2)]
  have r: "the (Run demoLib demoSchedule demoSuite) = p" by (simp add: Run_def p(1))
  show ?thesis
    unfolding r using p(2,3) t by simp
qed

end
